theory Spec2Isabelle
  imports
    Main
    "HOL-Library.Word"
    "HOL-Library.Signed_Division"
    "HOL-Library.Monad_Syntax"
    "HOL-Library.Log_Nat"
begin

unbundle bit_operations_syntax

section \<open>Go values\<close>

text \<open>
  The embedding follows \<^verbatim>\<open>totp.go\<close> on a 64-bit platform: Go's \<^verbatim>\<open>int\<close>,
  \<^verbatim>\<open>int64\<close> and \<^verbatim>\<open>uint64\<close> are 64-bit words (read signed with \<open>sint\<close>,
  unsigned with \<open>uint\<close>/\<open>unat\<close>), a \<^verbatim>\<open>[]byte\<close> is a list of 8-bit words and a
  Go \<^verbatim>\<open>string\<close> is a list of 8-bit characters. A function that can panic
  returns an \<open>option\<close>: \<open>None\<close> is the run-time panic, \<open>Some\<close> the normal return.
\<close>

type_synonym byte = "8 word"
type_synonym uint32 = "32 word"
type_synonym uint64 = "64 word"
type_synonym int64 = "64 word"
type_synonym go_int = "64 word"

text \<open>\<^verbatim>\<open>[]byte(s)\<close> and \<^verbatim>\<open>string(b)\<close>.\<close>

definition bytes_of_string :: "string \<Rightarrow> byte list" where
  "bytes_of_string s = map (\<lambda>c. word_of_nat (of_char c)) s"

definition string_of_bytes :: "byte list \<Rightarrow> string" where
  "string_of_bytes bs = map (\<lambda>b. char_of (unat b)) bs"

text \<open>\<^verbatim>\<open>xs[i]\<close>: an index outside \<open>0 \<le> i < len(xs)\<close> panics.\<close>

definition index :: "'a list \<Rightarrow> int \<Rightarrow> 'a option" where
  "index xs i = (if 0 \<le> i \<and> i < int (length xs) then Some (xs ! nat i) else None)"

text \<open>
  \<^verbatim>\<open>xs[lo:hi]\<close> on a slice whose capacity is its length (every slice cut below
  comes from \<^verbatim>\<open>make([]byte, n)\<close>): bounds outside \<open>0 \<le> lo \<le> hi \<le> cap(xs)\<close> panic.
\<close>

definition slice :: "'a list \<Rightarrow> int \<Rightarrow> int \<Rightarrow> 'a list option" where
  "slice xs lo hi =
     (if 0 \<le> lo \<and> lo \<le> hi \<and> hi \<le> int (length xs)
      then Some (take (nat (hi - lo)) (drop (nat lo) xs)) else None)"

text \<open>The composite literals \<^verbatim>\<open>[4]byte{b[0], b[1], b[2], b[3]}\<close> and its 8-byte sibling.\<close>

definition array4 :: "byte list \<Rightarrow> byte list option" where
  "array4 b = do {
     b0 \<leftarrow> index b 0; b1 \<leftarrow> index b 1; b2 \<leftarrow> index b 2; b3 \<leftarrow> index b 3;
     Some [b0, b1, b2, b3] }"

definition array8 :: "byte list \<Rightarrow> byte list option" where
  "array8 b = do {
     b0 \<leftarrow> index b 0; b1 \<leftarrow> index b 1; b2 \<leftarrow> index b 2; b3 \<leftarrow> index b 3;
     b4 \<leftarrow> index b 4; b5 \<leftarrow> index b 5; b6 \<leftarrow> index b 6; b7 \<leftarrow> index b 7;
     Some [b0, b1, b2, b3, b4, b5, b6, b7] }"

section \<open>Constants\<close>

definition BACKOFF_MINUTES :: int where "BACKOFF_MINUTES = 5"
definition MAX_FAILURES :: go_int where "MAX_FAILURES = 3"
definition COUNTER_SIZE :: nat where "COUNTER_SIZE = 8"

section \<open>Big-endian conversions\<close>

text \<open>
  Modelled from the spec: \<^verbatim>\<open>bigEndianUint64\<close>, \<^verbatim>\<open>uint64FromBigEndian\<close>,
  \<^verbatim>\<open>bigEndianInt\<close> and \<^verbatim>\<open>intFromBigEndian\<close> are called by \<^verbatim>\<open>totp.go\<close> but
  their file is not among the sources. The specification fixes the layout: all integers
  big-endian, the counter and the verification time 8 bytes unsigned, every other
  integer field 4 bytes; \<^verbatim>\<open>clientOffset\<close> is a signed count and a declared length can
  be negative, so the 4-byte fields are read as two's complement.
\<close>

definition bigEndianUint64 :: "uint64 \<Rightarrow> byte list" where
  "bigEndianUint64 n =
     [ucast (drop_bit 56 n), ucast (drop_bit 48 n), ucast (drop_bit 40 n), ucast (drop_bit 32 n),
      ucast (drop_bit 24 n), ucast (drop_bit 16 n), ucast (drop_bit 8 n), ucast n]"

definition uint64FromBigEndian :: "byte list \<Rightarrow> uint64" where
  "uint64FromBigEndian data = foldl (\<lambda>acc b. push_bit 8 acc OR ucast b) 0 data"

definition bigEndianInt :: "go_int \<Rightarrow> byte list" where
  "bigEndianInt n =
     [ucast (drop_bit 24 n), ucast (drop_bit 16 n), ucast (drop_bit 8 n), ucast n]"

definition intFromBigEndian :: "byte list \<Rightarrow> go_int" where
  "intFromBigEndian data =
     scast (foldl (\<lambda>acc b. push_bit 8 acc OR ucast b) (0 :: uint32) data)"

section \<open>Token engine\<close>

text \<open>
  \<^verbatim>\<open>hash.Hash\<close> as \<^verbatim>\<open>calculateToken\<close> uses it: \<open>Sum h data\<close> is the digest
  \<^verbatim>\<open>h.Sum(nil)\<close> after \<^verbatim>\<open>h.Write(data)\<close> on a fresh hash, \<open>Size h\<close> is
  \<^verbatim>\<open>h.Size()\<close>. The HMAC itself belongs to Go's standard library and stays a parameter.
\<close>

record hash_Hash =
  Sum :: "byte list \<Rightarrow> byte list"
  Size :: go_int

definition truncateHash :: "byte list \<Rightarrow> go_int \<Rightarrow> int64 option" where
  "truncateHash hmac_result sz = do {
     l \<leftarrow> index hmac_result (sint (sz - 1));
     let offset = l AND 0xf;
     b0 \<leftarrow> index hmac_result (uint offset);
     b1 \<leftarrow> index hmac_result (uint (offset + 1));
     b2 \<leftarrow> index hmac_result (uint (offset + 2));
     b3 \<leftarrow> index hmac_result (uint (offset + 3));
     let bin_code = push_bit 24 ((ucast b0 :: uint32) AND 0x7f) OR
                    push_bit 16 ((ucast b1 :: uint32) AND 0xff) OR
                    push_bit 8 ((ucast b2 :: uint32) AND 0xff) OR
                    ((ucast b3 :: uint32) AND 0xff);
     Some (ucast bin_code) }"

text \<open>Go's \<^verbatim>\<open>%\<close> on \<^verbatim>\<open>int64\<close>: the remainder takes the sign of the dividend.\<close>

definition rem_int64 :: "int64 \<Rightarrow> int64 \<Rightarrow> int64" where
  "rem_int64 a b = word_of_int (sint a smod sint b)"

text \<open>The decimal numeral of a natural number, as \<^verbatim>\<open>%d\<close> prints it.\<close>

definition digit_char :: "nat \<Rightarrow> char" where
  "digit_char d = char_of (48 + d)"

fun decimal :: "nat \<Rightarrow> string" where
  "decimal n = (if n < 10 then [digit_char n] else decimal (n div 10) @ [digit_char (n mod 10)])"

declare decimal.simps [simp del]

text \<open>
  \<^verbatim>\<open>fmt.Sprintf(fmt.Sprintf("%%0%dd", digits), mod)\<close>: the inner call builds the
  format \<^verbatim>\<open>%0<digits>d\<close>; for a positive \<open>digits\<close> the outer call pads the
  numeral with zeros on the left to that width. For \<open>digits = 0\<close> the format is
  \<^verbatim>\<open>%00d\<close> (no width), for a negative \<open>digits\<close> it carries the flag \<^verbatim>\<open>-\<close>,
  which pads with spaces on the right. Widths beyond the limits of \<^verbatim>\<open>fmt\<close> are not
  modelled; the package creates credentials with 6, 7 or 8 digits only.
\<close>

definition Sprintf_0d :: "go_int \<Rightarrow> uint64 \<Rightarrow> string" where
  "Sprintf_0d digits m =
     (let s = decimal (unat m); w = nat \<bar>sint digits\<bar> in
      if 0 < sint digits then replicate (w - length s) CHR ''0'' @ s
      else s @ replicate (w - length s) CHR '' '')"

definition calculateToken :: "byte list \<Rightarrow> go_int \<Rightarrow> hash_Hash \<Rightarrow> string option" where
  "calculateToken counter digits h = do {
     let hashResult = Sum h counter;
     result \<leftarrow> truncateHash hashResult (Size h);
     let m = (0 :: uint64);
     let m = (if digits = 8 then rem_int64 result 100000000 else m);
     let m = (if digits = 7 then rem_int64 result 10000000 else m);
     let m = (if digits = 6 then rem_int64 result 1000000 else m);
     Some (Sprintf_0d digits m) }"

text \<open>
  The specification's dynamic truncation (RFC 4226), over natural numbers: the offset is
  the low nibble of the last byte, the value the 31-bit big-endian integer at that offset.
\<close>

definition rfc4226_offset :: "byte list \<Rightarrow> nat" where
  "rfc4226_offset mac = unat (last mac) mod 16"

definition rfc4226_value :: "byte list \<Rightarrow> nat" where
  "rfc4226_value mac =
     (let offset = rfc4226_offset mac in
      (unat (mac ! offset) mod 128) * 2 ^ 24 + unat (mac ! (offset + 1)) * 2 ^ 16 +
      unat (mac ! (offset + 2)) * 2 ^ 8 + unat (mac ! (offset + 3)))"

text \<open>Reading a decimal numeral back.\<close>

definition is_digit :: "char \<Rightarrow> bool" where
  "is_digit c = (48 \<le> (of_char c :: nat) \<and> (of_char c :: nat) \<le> 57)"

definition nat_of_decimal :: "string \<Rightarrow> nat" where
  "nat_of_decimal s = foldl (\<lambda>a c. 10 * a + (of_char c - 48)) 0 s"

section \<open>Time\<close>

text \<open>
  A \<^verbatim>\<open>time.Time\<close> is the instant it denotes, in nanoseconds since the Unix epoch
  (\<^verbatim>\<open>UTC()\<close> changes the location only, not the instant); the range of Go's
  representation, some hundred billion years, is not modelled. A \<^verbatim>\<open>time.Duration\<close>
  is an \<^verbatim>\<open>int64\<close> count of nanoseconds. The wall clock is an input: \<open>clock\<close> is
  the sequence of readings that the successive calls of \<^verbatim>\<open>time.Now()\<close> return, and
  every function that reads the clock returns the rest of the sequence.
\<close>

type_synonym time_Time = int
type_synonym clock = "nat \<Rightarrow> time_Time"

definition time_Second :: int64 where "time_Second = 1000000000"
definition time_Minute :: int where "time_Minute = 60 * 1000000000"

definition time_Now :: "clock \<Rightarrow> time_Time \<times> clock" where
  "time_Now clk = (clk 0, \<lambda>n. clk (Suc n))"

definition time_Add :: "time_Time \<Rightarrow> int \<Rightarrow> time_Time" where
  "time_Add t d = t + d"

definition time_After :: "time_Time \<Rightarrow> time_Time \<Rightarrow> bool" where
  "time_After t u = (u < t)"

text \<open>\<^verbatim>\<open>t.Unix()\<close>, the seconds since the epoch, and \<^verbatim>\<open>time.Unix(sec, 0)\<close>.\<close>

definition time_Unix :: "time_Time \<Rightarrow> int64" where
  "time_Unix t = word_of_int (t div 1000000000)"

definition time_of_Unix :: "int64 \<Rightarrow> time_Time" where
  "time_of_Unix sec = sint sec * 1000000000"

text \<open>The zero \<^verbatim>\<open>time.Time\<close>: January 1 of year 1, 00:00 UTC.\<close>

definition time_zero :: time_Time where
  "time_zero = - 62135596800 * 1000000000"

section \<open>The credential\<close>

text \<open>\<^verbatim>\<open>crypto.Hash\<close> is an unsigned integer; these are the identifiers the package names.\<close>

type_synonym crypto_Hash = "64 word"

definition crypto_SHA1 :: crypto_Hash where "crypto_SHA1 = 3"
definition crypto_SHA256 :: crypto_Hash where "crypto_SHA256 = 5"
definition crypto_SHA512 :: crypto_Hash where "crypto_SHA512 = 7"

record totp =
  key :: "byte list"
  counter :: "byte list"
  digits :: go_int
  issuer :: string
  account :: string
  stepSize :: go_int
  clientOffset :: go_int
  totalVerificationFailures :: go_int
  lastVerificationTime :: time_Time
  hashFunction :: crypto_Hash

text \<open>\<^verbatim>\<open>new(totp)\<close>: every field at its zero value.\<close>

definition new_totp :: totp where
  "new_totp = \<lparr>key = [], counter = replicate COUNTER_SIZE 0, digits = 0, issuer = [],
     account = [], stepSize = 0, clientOffset = 0, totalVerificationFailures = 0,
     lastVerificationTime = time_zero, hashFunction = 0\<rparr>"

datatype error = EOF | errors_New string

definition synchronizeCounter :: "totp \<Rightarrow> go_int \<Rightarrow> totp" where
  "synchronizeCounter otp offset = otp\<lparr>clientOffset := offset\<rparr>"

definition getIntCounter :: "totp \<Rightarrow> uint64" where
  "getIntCounter otp = uint64FromBigEndian (counter otp)"

definition makeTOTP :: "byte list \<Rightarrow> string \<Rightarrow> string \<Rightarrow> crypto_Hash \<Rightarrow> go_int \<Rightarrow> totp \<times> error option" where
  "makeTOTP k acc iss hash dig =
     (new_totp\<lparr>key := k, account := acc, issuer := iss, digits := dig, stepSize := 30,
        clientOffset := 0, hashFunction := hash\<rparr>, None)"

section \<open>Time steps\<close>

text \<open>
  \<^verbatim>\<open>float64(ts / int64(stepSize))\<close>: the conversion rounds the integer to the nearest
  value with a 53-bit significand, ties to even. The result is an integer, and the
  model keeps it as one.
\<close>

definition float64_of_int64 :: "int64 \<Rightarrow> int" where
  "float64_of_int64 w =
     (let k = sint w; a = \<bar>k\<bar> in
      if a < 2 ^ 53 then k
      else let u = 2 ^ (nat (bitlen a) - 53); q = a div u; r = a mod u;
               m = (if 2 * r < u \<or> (2 * r = u \<and> even q) then q else q + 1)
           in sgn k * (m * u))"

text \<open>
  Modelled from the spec: \<^verbatim>\<open>round\<close> is called by \<^verbatim>\<open>increment\<close> but its file is
  not among the sources. The specification gives the counter as the quotient itself, an
  unsigned 64-bit value: rounding an integer leaves it, and the conversion to
  \<^verbatim>\<open>uint64\<close> keeps a value in \<open>0 \<le> v < 2 ^ 64\<close>. Go leaves the conversion of a
  negative value to the implementation; the model reduces it modulo \<open>2 ^ 64\<close>.
\<close>

definition round_go :: "int \<Rightarrow> uint64" where
  "round_go T = word_of_int T"

text \<open>Go's integer division truncates towards zero and panics on a zero divisor.\<close>

definition increment :: "int64 \<Rightarrow> go_int \<Rightarrow> uint64 option" where
  "increment ts step =
     (if step = 0 then None
      else let T = float64_of_int64 (word_of_int (sint ts sdiv sint step));
               n = round_go T
           in Some n)"

definition incrementCounter :: "totp \<Rightarrow> go_int \<Rightarrow> clock \<Rightarrow> (totp \<times> clock) option" where
  "incrementCounter otp idx clk =
     (let counterOffset = (idx * stepSize otp) * time_Second;
          clientOffset' = (clientOffset otp * stepSize otp) * time_Second;
          (t, clk') = time_Now clk;
          now = time_Unix (time_Add (time_Add t (sint counterOffset)) (sint clientOffset'))
      in do {
        n \<leftarrow> increment now (stepSize otp);
        Some (otp\<lparr>counter := bigEndianUint64 n\<rparr>, clk') })"

section \<open>Validation\<close>

text \<open>
  The digests of Go's standard library stay parameters: \<open>sha256_Sum256\<close> is
  \<^verbatim>\<open>sha256.Sum256\<close>, and \<open>hmac_New d k\<close> is \<^verbatim>\<open>hmac.New(d, k)\<close> for the
  constructor \<open>d\<close> of one of the three digests.
\<close>

datatype digest = sha1_New | sha256_New | sha512_New

record crypto =
  sha256_Sum256 :: "byte list \<Rightarrow> byte list"
  hmac_New :: "digest \<Rightarrow> byte list \<Rightarrow> hash_Hash"

definition hex_digit :: "nat \<Rightarrow> char" where
  "hex_digit n = ''0123456789abcdef'' ! n"

definition hex_EncodeToString :: "byte list \<Rightarrow> string" where
  "hex_EncodeToString bs = concat (map (\<lambda>b. [hex_digit (unat b div 16), hex_digit (unat b mod 16)]) bs)"

definition calculateTOTP :: "crypto \<Rightarrow> totp \<Rightarrow> go_int \<Rightarrow> clock \<Rightarrow> (string \<times> totp \<times> clock) option" where
  "calculateTOTP cr otp idx clk =
     (let h = (if hashFunction otp = crypto_SHA256 then hmac_New cr sha256_New (key otp)
               else if hashFunction otp = crypto_SHA512 then hmac_New cr sha512_New (key otp)
               else hmac_New cr sha1_New (key otp))
      in do {
        (otp', clk') \<leftarrow> incrementCounter otp idx clk;
        token \<leftarrow> calculateToken (counter otp') (digits otp') h;
        Some (token, otp', clk') })"

definition OTP :: "crypto \<Rightarrow> totp \<Rightarrow> clock \<Rightarrow> (string \<times> totp \<times> clock) option" where
  "OTP cr otp clk = calculateTOTP cr otp 0 clk"

definition validBackoffTime :: "time_Time \<Rightarrow> clock \<Rightarrow> bool \<times> clock" where
  "validBackoffTime lastVerification clk =
     (let diff = time_Add lastVerification (BACKOFF_MINUTES * time_Minute);
          (now, clk') = time_Now clk
      in (time_After now diff, clk'))"

text \<open>The digest, in hexadecimal, that \<^verbatim>\<open>Validate\<close> compares instead of the codes.\<close>

definition token_hash :: "crypto \<Rightarrow> string \<Rightarrow> string" where
  "token_hash cr code = hex_EncodeToString (sha256_Sum256 cr (bytes_of_string code))"

text \<open>
  \<^verbatim>\<open>Validate\<close> returns its error (\<open>None\<close> is \<^verbatim>\<open>nil\<close>), the credential as the
  call leaves it and the rest of the clock. The operator \<^verbatim>\<open>&&\<close> reads the clock only
  when its left operand holds.
\<close>

definition Validate :: "crypto \<Rightarrow> string \<Rightarrow> totp \<Rightarrow> clock \<Rightarrow> (error option \<times> totp \<times> clock) option" where
  "Validate cr userCode otp clk =
     (if userCode = [] then Some (Some (errors_New ''User provided token is empty''), otp, clk)
      else
        let (locked, clk1) =
              (if sint MAX_FAILURES \<le> sint (totalVerificationFailures otp)
               then (let (v, c) = validBackoffTime (lastVerificationTime otp) clk in (\<not> v, c))
               else (False, clk))
        in
        if locked
        then Some (Some (errors_New ''The verification is locked down, because of too many trials.''), otp, clk1)
        else
          let (reset, clk2) =
                (if sint MAX_FAILURES \<le> sint (totalVerificationFailures otp)
                 then validBackoffTime (lastVerificationTime otp) clk1
                 else (False, clk1));
              otp0 = (if reset then otp\<lparr>totalVerificationFailures := 0\<rparr> else otp);
              userToken = token_hash cr userCode
          in do {
            (code0, otp1, clk3) \<leftarrow> calculateTOTP cr otp0 (- 1) clk2;
            (code1, otp2, clk4) \<leftarrow> calculateTOTP cr otp1 0 clk3;
            (code2, otp3, clk5) \<leftarrow> calculateTOTP cr otp2 1 clk4;
            let tokens = [token_hash cr code0, token_hash cr code1, token_hash cr code2] in
            if tokens ! 1 = userToken then Some (None, otp3, clk5)
            else if tokens ! 0 = userToken then Some (None, synchronizeCounter otp3 (- 1), clk5)
            else if tokens ! 2 = userToken then Some (None, synchronizeCounter otp3 1, clk5)
            else
              let otp4 = otp3\<lparr>totalVerificationFailures := totalVerificationFailures otp3 + 1\<rparr>;
                  (now, clk6) = time_Now clk5;
                  otp5 = otp4\<lparr>lastVerificationTime := now\<rparr>
              in Some (Some (errors_New ''Tokens mismatch.''), otp5, clk6) })"

section \<open>The codec\<close>

text \<open>
  \<^verbatim>\<open>bytes.Buffer\<close>: \<^verbatim>\<open>Write\<close> and \<^verbatim>\<open>WriteString\<close> append to the buffer, and
  the error they return is always \<^verbatim>\<open>nil\<close>. \<^verbatim>\<open>ToBytes\<close> tests that error after
  every write and leaves at the first one; \<open>write_all\<close> is this chain of writes.
\<close>

definition buffer_Write :: "byte list \<Rightarrow> byte list \<Rightarrow> byte list \<times> error option" where
  "buffer_Write buffer p = (buffer @ p, None)"

fun write_all :: "byte list list \<Rightarrow> byte list \<Rightarrow> error + byte list" where
  "write_all [] buffer = Inr buffer"
| "write_all (p # ps) buffer =
     (case buffer_Write buffer p of
        (buffer', Some err) \<Rightarrow> Inl err
      | (buffer', None) \<Rightarrow> write_all ps buffer')"

definition ToBytes :: "totp \<Rightarrow> error + byte list" where
  "ToBytes otp =
     (let keySize = (word_of_nat (length (key otp)) :: go_int);
          keySizeBytes = bigEndianInt keySize;
          issuerSize = (word_of_nat (length (issuer otp)) :: go_int);
          issuerSizeBytes = bigEndianInt issuerSize;
          accountSize = (word_of_nat (length (account otp)) :: go_int);
          accountSizeBytes = bigEndianInt accountSize;
          totalSize = 4 + 4 + keySize + 8 + 4 + 4 + issuerSize + 4 + accountSize + 4 + 4 + 4 + 8 + 4;
          totalSizeBytes = bigEndianInt totalSize;
          counterBytes = bigEndianUint64 (getIntCounter otp);
          digitBytes = bigEndianInt (digits otp);
          stepsBytes = bigEndianInt (stepSize otp);
          offsetBytes = bigEndianInt (clientOffset otp);
          totalFailuresBytes = bigEndianInt (totalVerificationFailures otp);
          verificationTimeBytes = bigEndianUint64 (time_Unix (lastVerificationTime otp));
          hashBytes = (if hashFunction otp = crypto_SHA256 then bigEndianInt 1
                       else if hashFunction otp = crypto_SHA512 then bigEndianInt 2
                       else bigEndianInt 0)
      in write_all
           [totalSizeBytes, keySizeBytes, key otp, counterBytes, digitBytes,
            issuerSizeBytes, bytes_of_string (issuer otp),
            accountSizeBytes, bytes_of_string (account otp),
            stepsBytes, offsetBytes, totalFailuresBytes, verificationTimeBytes, hashBytes] [])"

text \<open>
  \<^verbatim>\<open>bytes.Reader\<close>: \<^verbatim>\<open>Read(b)\<close> copies what is left of the data into \<open>b\<close>, as
  much as fits, and reports \<^verbatim>\<open>io.EOF\<close> when nothing is left. It returns the slice
  as the call leaves it, the count, the error and the reader.
\<close>

record bytes_Reader =
  reader_s :: "byte list"
  reader_i :: nat

definition bytes_NewReader :: "byte list \<Rightarrow> bytes_Reader" where
  "bytes_NewReader b = \<lparr>reader_s = b, reader_i = 0\<rparr>"

definition reader_Read :: "bytes_Reader \<Rightarrow> byte list \<Rightarrow> byte list \<times> nat \<times> error option \<times> bytes_Reader" where
  "reader_Read r b =
     (if length (reader_s r) \<le> reader_i r then (b, 0, Some EOF, r)
      else let n = min (length b) (length (reader_s r) - reader_i r)
           in (take n (drop (reader_i r) (reader_s r)) @ drop n b, n, None,
               r\<lparr>reader_i := reader_i r + n\<rparr>))"

text \<open>\<^verbatim>\<open>make([]byte, n)\<close>: \<open>n\<close> zero bytes; a negative length panics.\<close>

definition make_bytes :: "int \<Rightarrow> byte list option" where
  "make_bytes n = (if 0 \<le> n then Some (replicate (nat n) 0) else None)"

text \<open>
  The step that \<^verbatim>\<open>TOTPFromBytes\<close> repeats for every field:
  \<^verbatim>\<open>startOffset = endOffset; endOffset = startOffset + n; b = buffer[startOffset:endOffset]\<close>.
  It returns the slice and the new \<^verbatim>\<open>endOffset\<close>. The offsets are sums of a few
  constants and of at most three declared sizes, each a 32-bit value, so they cannot
  overflow Go's 64-bit \<^verbatim>\<open>int\<close> and are kept as integers.
\<close>

definition field :: "byte list \<Rightarrow> int \<Rightarrow> int \<Rightarrow> (byte list \<times> int) option" where
  "field buffer endOffset n = do {
     let startOffset = endOffset;
     let endOffset = startOffset + n;
     b \<leftarrow> slice buffer startOffset endOffset;
     Some (b, endOffset) }"

definition int4 :: "byte list \<Rightarrow> go_int option" where
  "int4 b = do { a \<leftarrow> array4 b; Some (intFromBigEndian a) }"

text \<open>
  \<^verbatim>\<open>TOTPFromBytes\<close> in two parts: \<open>read_fields\<close> is its second half, from the
  comment \<^verbatim>\<open>// skip the total bytes size\<close> to the end, which cuts the fields out of
  the working buffer; \<open>TOTPFromBytes\<close> reads the length and the buffer and goes on
  with it.
\<close>

definition read_fields :: "totp \<Rightarrow> byte list \<Rightarrow> error option \<Rightarrow> (totp \<times> error option) option" where
  "read_fields otp buffer err = do {
     (keyBytes, endOffset) \<leftarrow> field buffer 0 4;
     keySize \<leftarrow> int4 keyBytes;
     (k, endOffset) \<leftarrow> field buffer endOffset (sint keySize);
     let otp = otp\<lparr>key := k\<rparr>;
     (b, endOffset) \<leftarrow> field buffer endOffset 8;
     c \<leftarrow> array8 b;
     let otp = otp\<lparr>counter := c\<rparr>;
     (b, endOffset) \<leftarrow> field buffer endOffset 4;
     d \<leftarrow> int4 b;
     let otp = otp\<lparr>digits := d\<rparr>;
     (b, endOffset) \<leftarrow> field buffer endOffset 4;
     issuerSize \<leftarrow> int4 b;
     (b, endOffset) \<leftarrow> field buffer endOffset (sint issuerSize);
     let otp = otp\<lparr>issuer := string_of_bytes b\<rparr>;
     (b, endOffset) \<leftarrow> field buffer endOffset 4;
     accountSize \<leftarrow> int4 b;
     (b, endOffset) \<leftarrow> field buffer endOffset (sint accountSize);
     let otp = otp\<lparr>account := string_of_bytes b\<rparr>;
     (b, endOffset) \<leftarrow> field buffer endOffset 4;
     st \<leftarrow> int4 b;
     let otp = otp\<lparr>stepSize := st\<rparr>;
     (b, endOffset) \<leftarrow> field buffer endOffset 4;
     off \<leftarrow> int4 b;
     let otp = otp\<lparr>clientOffset := off\<rparr>;
     (b, endOffset) \<leftarrow> field buffer endOffset 4;
     f \<leftarrow> int4 b;
     let otp = otp\<lparr>totalVerificationFailures := f\<rparr>;
     (b, endOffset) \<leftarrow> field buffer endOffset 8;
     t \<leftarrow> array8 b;
     let ts = uint64FromBigEndian t;
     let otp = otp\<lparr>lastVerificationTime := time_of_Unix ts\<rparr>;
     (b, endOffset) \<leftarrow> field buffer endOffset 4;
     hashType \<leftarrow> int4 b;
     let otp = (if hashType = 1 then otp\<lparr>hashFunction := crypto_SHA256\<rparr>
                else if hashType = 2 then otp\<lparr>hashFunction := crypto_SHA512\<rparr>
                else otp\<lparr>hashFunction := crypto_SHA1\<rparr>);
     Some (otp, err) }"

definition TOTPFromBytes :: "byte list \<Rightarrow> (totp \<times> error option) option" where
  "TOTPFromBytes data =
     (let reader = bytes_NewReader data;
          otp = new_totp;
          lenght = replicate 4 0;
          (lenght, _, err, reader) = reader_Read reader lenght
      in
      if err \<noteq> None \<and> err \<noteq> Some EOF then Some (otp, err)
      else do {
        totalSize \<leftarrow> int4 lenght;
        buffer \<leftarrow> make_bytes (sint totalSize - 4);
        let (buffer, _, err, reader) = reader_Read reader buffer in
        if err \<noteq> None \<and> err \<noteq> Some EOF then Some (otp, err)
        else read_fields otp buffer err })"

section \<open>Notions used to state the properties\<close>

text \<open>The clock after one reading.\<close>

definition tick :: "clock \<Rightarrow> clock" where
  "tick clk = (\<lambda>n. clk (Suc n))"

text \<open>The three errors of \<^verbatim>\<open>Validate\<close>, under the names the specification gives them.\<close>

definition InvalidInput :: error where
  "InvalidInput = errors_New ''User provided token is empty''"

definition Locked :: error where
  "Locked = errors_New ''The verification is locked down, because of too many trials.''"

definition Mismatch :: error where
  "Mismatch = errors_New ''Tokens mismatch.''"

text \<open>
  What the properties need of the HMAC: a digest of 20, 32 or 64 bytes, as long as the
  size the hash reports.
\<close>

definition hmac_ok :: "crypto \<Rightarrow> bool" where
  "hmac_ok cr = (\<forall>d k m. Size (hmac_New cr d k) \<in> {20, 32, 64} \<and>
                   length (Sum (hmac_New cr d k) m) = unat (Size (hmac_New cr d k)))"

text \<open>
  The three codes that \<^verbatim>\<open>Validate\<close> computes, in the order it computes them: for
  the steps \<open>-1\<close>, \<open>0\<close> and \<open>+1\<close>, each call reading the clock once.
\<close>

definition three_codes :: "crypto \<Rightarrow> totp \<Rightarrow> clock \<Rightarrow> (string \<times> string \<times> string) option" where
  "three_codes cr otp clk = do {
     (code0, otp1, clk1) \<leftarrow> calculateTOTP cr otp (- 1) clk;
     (code1, otp2, clk2) \<leftarrow> calculateTOTP cr otp1 0 clk1;
     (code2, otp3, clk3) \<leftarrow> calculateTOTP cr otp2 1 clk2;
     Some (code0, code1, code2) }"

text \<open>
  A small instance on which the definitions are evaluated: digests of the right sizes
  that copy their input (the code is then the counter itself), a credential with six
  digits, step size 30 and two failures recorded at the epoch, the same credential with
  three failures, and clocks that stand 59 seconds, exactly five minutes and 301 seconds
  after the epoch.
\<close>

definition toy :: crypto where
  "toy = \<lparr>sha256_Sum256 = (\<lambda>b. b),
          hmac_New = (\<lambda>d k. \<lparr>Sum = (\<lambda>m. take 4 (drop 4 m @ replicate 4 0) @ replicate 16 0),
                             Size = 20\<rparr>)\<rparr>"

definition sample_totp :: totp where
  "sample_totp = \<lparr>key = [1, 2, 3], counter = [0, 0, 0, 0, 0, 0, 0, 9], digits = 6,
     issuer = ''Sec51'', account = ''info@sec51.com'', stepSize = 30, clientOffset = 0,
     totalVerificationFailures = 2, lastVerificationTime = 0, hashFunction = crypto_SHA512\<rparr>"

definition locked_totp :: totp where
  "locked_totp = sample_totp\<lparr>totalVerificationFailures := 3\<rparr>"

definition sample_clock :: clock where
  "sample_clock = (\<lambda>n. 59000000000)"

definition boundary_clock :: clock where
  "boundary_clock = (\<lambda>n. 300000000000)"

definition late_clock :: clock where
  "late_clock = (\<lambda>n. 301000000000)"

text \<open>The number that a byte sequence denotes as an unsigned big-endian numeral.\<close>

definition be_nat :: "byte list \<Rightarrow> nat" where
  "be_nat bs = foldl (\<lambda>a b. 256 * a + unat b) 0 bs"

text \<open>A field that the layout gives four bytes holds the 32-bit two's complement values.\<close>

definition int32_range :: "go_int \<Rightarrow> bool" where
  "int32_range w = (- (2 ^ 31) \<le> sint w \<and> sint w < 2 ^ 31)"

text \<open>
  A populated credential: the counter has its eight bytes, the encoding is short enough
  for its length to fit its four bytes, the integer fields fit theirs, and the hash is
  one of the three variants of the data model.
\<close>

definition populated :: "totp \<Rightarrow> bool" where
  "populated otp =
     (length (counter otp) = COUNTER_SIZE \<and>
      52 + length (key otp) + length (issuer otp) + length (account otp) < 2 ^ 31 \<and>
      int32_range (digits otp) \<and> int32_range (stepSize otp) \<and>
      int32_range (clientOffset otp) \<and> int32_range (totalVerificationFailures otp) \<and>
      hashFunction otp \<in> {crypto_SHA1, crypto_SHA256, crypto_SHA512})"

text \<open>The bytes that \<^verbatim>\<open>ToBytes\<close> writes, field after field.\<close>

definition encoding :: "totp \<Rightarrow> byte list" where
  "encoding otp =
     bigEndianInt (word_of_nat (52 + length (key otp) + length (issuer otp) + length (account otp))) @
     bigEndianInt (word_of_nat (length (key otp))) @ key otp @
     bigEndianUint64 (uint64FromBigEndian (counter otp)) @
     bigEndianInt (digits otp) @
     bigEndianInt (word_of_nat (length (issuer otp))) @ bytes_of_string (issuer otp) @
     bigEndianInt (word_of_nat (length (account otp))) @ bytes_of_string (account otp) @
     bigEndianInt (stepSize otp) @ bigEndianInt (clientOffset otp) @
     bigEndianInt (totalVerificationFailures otp) @
     bigEndianUint64 (time_Unix (lastVerificationTime otp)) @
     bigEndianInt (if hashFunction otp = crypto_SHA256 then 1
                   else if hashFunction otp = crypto_SHA512 then 2 else 0)"

text \<open>
  The credential of the instance after a resynchronisation to step \<open>-1\<close> and a failure
  at a time that is not a whole second, and the encodings of both credentials.
\<close>

definition resynced_totp :: totp where
  "resynced_totp = sample_totp\<lparr>clientOffset := - 1, lastVerificationTime := 1438601387123456789\<rparr>"

definition sample_bytes :: "byte list" where
  "sample_bytes =
     [0, 0, 0, 74, 0, 0, 0, 3, 1, 2, 3, 0, 0, 0, 0, 0, 0, 0, 9, 0, 0, 0, 6,
      0, 0, 0, 5, 83, 101, 99, 53, 49,
      0, 0, 0, 14, 105, 110, 102, 111, 64, 115, 101, 99, 53, 49, 46, 99, 111, 109,
      0, 0, 0, 30, 0, 0, 0, 0, 0, 0, 0, 2, 0, 0, 0, 0, 0, 0, 0, 0, 0, 0, 0, 2]"

definition resynced_bytes :: "byte list" where
  "resynced_bytes =
     [0, 0, 0, 74, 0, 0, 0, 3, 1, 2, 3, 0, 0, 0, 0, 0, 0, 0, 9, 0, 0, 0, 6,
      0, 0, 0, 5, 83, 101, 99, 53, 49,
      0, 0, 0, 14, 105, 110, 102, 111, 64, 115, 101, 99, 53, 49, 46, 99, 111, 109,
      0, 0, 0, 30, 255, 255, 255, 255, 0, 0, 0, 2, 0, 0, 0, 0, 85, 191, 80, 171, 0, 0, 0, 2]"

text \<open>
  What \<^verbatim>\<open>TOTPFromBytes\<close> takes from its input: the declared total size, read from
  the first four bytes (bytes that the input lacks read as zero), and the working buffer
  of \<open>totalSize - 4\<close> bytes that follow, zero where the input ends.
\<close>

definition declared_total :: "byte list \<Rightarrow> int" where
  "declared_total data = sint (intFromBigEndian (take 4 (data @ replicate 4 0)))"

definition working_buffer :: "byte list \<Rightarrow> byte list" where
  "working_buffer data =
     (let n = nat (declared_total data - 4) in take n (drop 4 data @ replicate n 0))"

text \<open>The size that the four bytes at an offset of the buffer declare.\<close>

definition declared_at :: "byte list \<Rightarrow> int \<Rightarrow> int" where
  "declared_at buffer off = sint (intFromBigEndian (take 4 (drop (nat off) buffer)))"

text \<open>
  The declared sizes fit: the buffer holds the key size; the key size is not negative and
  the key, the counter, the digits and the issuer size lie in the buffer; the issuer size
  is not negative and the issuer and the account size lie in the buffer; the account size
  is not negative and the account and the 24 bytes after it lie in the buffer.
\<close>

definition fields_fit :: "byte list \<Rightarrow> bool" where
  "fields_fit buffer =
     (let n = int (length buffer) in
      4 \<le> n \<and>
      (let keySize = declared_at buffer 0 in
       0 \<le> keySize \<and> keySize + 20 \<le> n \<and>
       (let issuerSize = declared_at buffer (keySize + 16) in
        0 \<le> issuerSize \<and> keySize + issuerSize + 24 \<le> n \<and>
        (let accountSize = declared_at buffer (keySize + issuerSize + 20) in
         0 \<le> accountSize \<and> keySize + issuerSize + accountSize + 48 \<le> n))))"

definition sizes_fit :: "byte list \<Rightarrow> bool" where
  "sizes_fit data = (4 \<le> declared_total data \<and> fields_fit (working_buffer data))"

section \<open>Properties of the token engine\<close>

lemma nibble: "unat ((l::byte) AND 0xf) = unat l mod 16"
proof -
  have "(l AND 0xf) = take_bit 4 l" 
    by (simp add: take_bit_eq_mask mask_eq_exp_minus_1)
  also have "unat (take_bit 4 l) = take_bit 4 (unat l)" by (rule unsigned_take_bit_eq)
  also have "\<dots> = unat l mod 16" by (simp add: take_bit_eq_mod)
  finally show ?thesis .
qed

lemma unat_byte_lt: "unat (b::byte) < 256"
  using unsigned_less [of b] by simp

lemma unat_ucast_byte: "unat (ucast (b::byte) :: uint32) = unat b"
  using unat_byte_lt [of b] by (simp add: unsigned_ucast_eq take_bit_eq_mod)

lemma and7f: "unat ((ucast (b::byte) :: uint32) AND 0x7f) = unat b mod 128"
proof -
  have "((ucast b :: uint32) AND 0x7f) = take_bit 7 (ucast b)" 
    by (simp add: take_bit_eq_mask mask_eq_exp_minus_1)
  also have "unat (take_bit 7 (ucast b :: uint32)) = take_bit 7 (unat (ucast b :: uint32))" by (rule unsigned_take_bit_eq)
  also have "\<dots> = unat b mod 128" by (simp add: take_bit_eq_mod unat_ucast_byte)
  finally show ?thesis .
qed

lemma andff: "((ucast (b::byte) :: uint32) AND 0xff) = ucast b"
proof -
  have m: "(0xff :: uint32) = mask 8" by (simp add: mask_eq_exp_minus_1)
  show ?thesis unfolding m
  by (rule bit_eqI) (auto simp: bit_simps dest: bit_imp_le_length)
qed

lemma bin_code_add:
  fixes b0 b1 b2 b3 :: byte
  shows "push_bit 24 ((ucast b0 :: uint32) AND 0x7f) OR
                    push_bit 16 ((ucast b1 :: uint32) AND 0xff) OR
                    push_bit 8 ((ucast b2 :: uint32) AND 0xff) OR
                    ((ucast b3 :: uint32) AND 0xff)
      = push_bit 24 ((ucast b0 :: uint32) AND 0x7f) + (push_bit 16 (ucast b1 :: uint32) + (push_bit 8 (ucast b2 :: uint32) + ucast b3))"
proof -
  have 1: "push_bit 8 (ucast b2 :: uint32) + ucast b3 = push_bit 8 (ucast b2 :: uint32) OR ucast b3"
    by (rule disjunctive_add) (auto simp: bit_simps dest: bit_imp_le_length)
  have 2: "push_bit 16 (ucast b1 :: uint32) + (push_bit 8 (ucast b2 :: uint32) OR ucast b3)
     = push_bit 16 (ucast b1 :: uint32) OR push_bit 8 (ucast b2 :: uint32) OR ucast b3"
    by (rule disjunctive_add) (auto simp: bit_simps dest: bit_imp_le_length)
  have 3: "push_bit 24 ((ucast b0 :: uint32) AND 0x7f) + (push_bit 16 (ucast b1 :: uint32) OR push_bit 8 (ucast b2 :: uint32) OR ucast b3)
     = push_bit 24 ((ucast b0 :: uint32) AND 0x7f) OR push_bit 16 (ucast b1 :: uint32) OR push_bit 8 (ucast b2 :: uint32) OR ucast b3"
    by (rule disjunctive_add) (auto simp: bit_simps dest: bit_imp_le_length)
  show ?thesis unfolding andff using 1 2 3 by simp
qed

lemma unat_push: 
  assumes "x < 2 ^ 8" "n \<le> 24"
  shows "unat (push_bit n (word_of_nat x :: uint32)) = x * 2 ^ n"
proof -
  have p: "(2::nat) ^ n \<le> 2 ^ 24"
    using assms(2) by (rule power_increasing) simp
  have "x * 2 ^ n < 2 ^ 8 * 2 ^ 24"
    using assms(1) p by (rule mult_less_le_imp_less) simp_all
  then have b: "x * 2 ^ n < 2 ^ 32" by simp
  then have x: "x < 2 ^ 32" using assms by (auto intro: less_trans)
  have "unat (push_bit n (word_of_nat x :: uint32)) = take_bit 32 (push_bit n (unat (word_of_nat x :: uint32)))"
    by (simp add: unsigned_push_bit_eq)
  also have "unat (word_of_nat x :: uint32) = x" using x by (simp add: unat_of_nat)
  also have "take_bit 32 (push_bit n x) = x * 2 ^ n" 
    using b by (simp add: take_bit_nat_eq_self_iff push_bit_eq_mult)
  finally show ?thesis .
qed



lemma bin_code_unat:
  fixes b0 b1 b2 b3 :: byte
  shows "unat (push_bit 24 ((ucast b0 :: uint32) AND 0x7f) OR
                    push_bit 16 ((ucast b1 :: uint32) AND 0xff) OR
                    push_bit 8 ((ucast b2 :: uint32) AND 0xff) OR
                    ((ucast b3 :: uint32) AND 0xff))
     = (unat b0 mod 128) * 2 ^ 24 + unat b1 * 2 ^ 16 + unat b2 * 2 ^ 8 + unat b3"
proof -
  define A where "A = push_bit 24 ((ucast b0 :: uint32) AND 0x7f)"
  define B where "B = push_bit 16 (ucast b1 :: uint32)"
  define C where "C = push_bit 8 (ucast b2 :: uint32)"
  define D where "D = (ucast b3 :: uint32)"
  have m: "(ucast b0 :: uint32) AND 0x7f = word_of_nat (unat b0 mod 128)"
  proof -
    have "(ucast b0 :: uint32) AND 0x7f = word_of_nat (unat ((ucast b0 :: uint32) AND 0x7f))" by simp
    then show ?thesis by (simp only: and7f)
  qed
  have a: "unat A = (unat b0 mod 128) * 2 ^ 24"
    unfolding A_def m by (rule unat_push) simp_all
  have b: "unat B = unat b1 * 2 ^ 16"
    unfolding B_def using unat_push [of "unat b1" 16] unat_byte_lt [of b1] by simp
  have c: "unat C = unat b2 * 2 ^ 8"
    unfolding C_def using unat_push [of "unat b2" 8] unat_byte_lt [of b2] by simp
  have d: "unat D = unat b3" unfolding D_def by (rule unat_ucast_byte)
  have a': "unat A < 128 * 2 ^ 24" unfolding a by simp
  have b': "unat B < 256 * 2 ^ 16" unfolding b using unat_byte_lt [of b1] by simp
  have c': "unat C < 256 * 2 ^ 8" unfolding c using unat_byte_lt [of b2] by simp
  have d': "unat D < 256" unfolding d using unat_byte_lt [of b3] by simp
  have cd: "unat (C + D) = unat C + unat D"
    using c' d' by (subst unat_add_lem [THEN iffD1]) simp_all
  have bcd: "unat (B + (C + D)) = unat B + unat (C + D)"
    using b' c' d' by (subst unat_add_lem [THEN iffD1]) (simp_all add: cd)
  have abcd: "unat (A + (B + (C + D))) = unat A + unat (B + (C + D))"
    using a' b' c' d' by (subst unat_add_lem [THEN iffD1]) (simp_all add: cd bcd)
  have "unat (A + (B + (C + D))) = (unat b0 mod 128) * 2 ^ 24 + unat b1 * 2 ^ 16 + unat b2 * 2 ^ 8 + unat b3"
    unfolding abcd bcd cd a b c d by simp
  then show ?thesis
    unfolding bin_code_add A_def B_def C_def D_def .
qed

lemma value_bound:
  fixes a b c d :: byte
  shows "(unat a mod 128) * 2 ^ 24 + unat b * 2 ^ 16 + unat c * 2 ^ 8 + unat d < 2 ^ 31"
proof -
  have "unat a mod 128 < 128" by simp
  then show ?thesis
    using unat_byte_lt [of b] unat_byte_lt [of c] unat_byte_lt [of d] by simp
qed

lemma rfc4226_value_lt: "rfc4226_value mac < 2 ^ 31"
  unfolding rfc4226_value_def Let_def by (rule value_bound)

lemma index_nat: "n < length xs \<Longrightarrow> index xs (int n) = Some (xs ! n)"
  by (simp add: index_def)

lemma truncateHash_value:
  assumes "sz \<in> {20, 32, 64}" "length mac = unat sz"
  shows "truncateHash mac sz = Some (word_of_nat (rfc4226_value mac))"
proof -
  have len: "20 \<le> length mac" and sz1: "sint (sz - 1) = int (length mac) - 1"
    using assms by auto
  have mac_ne: "mac \<noteq> []" using len by auto
  let ?l = "last mac"
  have l: "index mac (sint (sz - 1)) = Some ?l"
    using len mac_ne by (simp add: index_def sz1 last_conv_nth nat_diff_distrib)
  let ?o = "?l AND 0xf"
  have o: "unat ?o = rfc4226_offset mac" by (simp add: nibble rfc4226_offset_def)
  have olt: "unat ?o < 16" by (simp add: nibble)
  have ok: "\<And>k. k \<le> 3 \<Longrightarrow> uint (?o + word_of_nat k) = int (rfc4226_offset mac + k)"
  proof -
    fix k :: nat assume k: "k \<le> 3"
    have "unat (?o + word_of_nat k) = unat ?o + unat (word_of_nat k :: byte)"
      using olt k by (subst unat_add_lem [THEN iffD1]) (simp_all add: unat_of_nat)
    then have "unat (?o + word_of_nat k) = rfc4226_offset mac + k"
      using k by (simp add: o unat_of_nat)
    then show "uint (?o + word_of_nat k) = int (rfc4226_offset mac + k)"
      by (simp only: uint_nat)
  qed
  have ix: "\<And>k. k \<le> 3 \<Longrightarrow> index mac (uint (?o + word_of_nat k)) = Some (mac ! (rfc4226_offset mac + k))"
  proof -
    fix k :: nat assume k: "k \<le> 3"
    have "rfc4226_offset mac + k < length mac" using olt len k by (simp add: o [symmetric])
    then show "index mac (uint (?o + word_of_nat k)) = Some (mac ! (rfc4226_offset mac + k))"
      unfolding ok [OF k] by (rule index_nat)
  qed
  from ix [of 0] ix [of 1] ix [of 2] ix [of 3] 
  have i0: "index mac (uint ?o) = Some (mac ! rfc4226_offset mac)"
    and i1: "index mac (uint (?o + 1)) = Some (mac ! (rfc4226_offset mac + 1))"
    and i2: "index mac (uint (?o + 2)) = Some (mac ! (rfc4226_offset mac + 2))"
    and i3: "index mac (uint (?o + 3)) = Some (mac ! (rfc4226_offset mac + 3))"
    by simp_all
  have v: "\<And>w :: uint32. unat w = rfc4226_value mac \<Longrightarrow> (ucast w :: int64) = word_of_nat (rfc4226_value mac)"
  proof -
    fix w :: uint32 assume w: "unat w = rfc4226_value mac"
    have "(ucast w :: int64) = word_of_nat (unat w)" by simp
    then show "(ucast w :: int64) = word_of_nat (rfc4226_value mac)" by (simp only: w)
  qed
  have u: "unat (push_bit 24 ((ucast (mac ! rfc4226_offset mac) :: uint32) AND 0x7f) OR
                push_bit 16 ((ucast (mac ! (rfc4226_offset mac + 1)) :: uint32) AND 0xff) OR
                push_bit 8 ((ucast (mac ! (rfc4226_offset mac + 2)) :: uint32) AND 0xff) OR
                ((ucast (mac ! (rfc4226_offset mac + 3)) :: uint32) AND 0xff)) = rfc4226_value mac"
    unfolding rfc4226_value_def Let_def by (rule bin_code_unat)
  show ?thesis
    by (simp only: truncateHash_def l i0 i1 i2 i3 Let_def bind.bind_lunit v [OF u])
qed

lemma of_char_digit_char: "d < 10 \<Longrightarrow> (of_char (digit_char d) :: nat) = 48 + d"
  by (simp add: digit_char_def)

lemma is_digit_digit_char: "d < 10 \<Longrightarrow> is_digit (digit_char d)"
  by (simp add: is_digit_def of_char_digit_char)

lemma decimal_all_digits: "list_all is_digit (decimal n)"
proof (induction n rule: decimal.induct)
  case (1 n)
  show ?case
  proof (cases "n < 10")
    case True
    then show ?thesis by (subst decimal.simps) (simp add: is_digit_digit_char)
  next
    case False
    with 1 show ?thesis by (subst decimal.simps) (simp add: is_digit_digit_char)
  qed
qed

lemma decimal_length: "0 < k \<Longrightarrow> n < 10 ^ k \<Longrightarrow> length (decimal n) \<le> k"
proof (induction n arbitrary: k rule: decimal.induct)
  case (1 n)
  show ?case
  proof (cases "n < 10")
    case True
    with 1(2) show ?thesis by (subst decimal.simps) simp
  next
    case False
    with 1(3) have "1 < k" by (cases "k = 1") (use 1(2) in auto)
    then obtain j where j: "k = Suc j" "0 < j" by (cases k) auto
    from 1(3) j have "n div 10 < 10 ^ j" by (simp add: less_mult_imp_div_less mult.commute)
    from 1(1) [OF False j(2) this] False j show ?thesis by (subst decimal.simps) simp
  qed
qed

lemma nat_of_decimal_snoc: "nat_of_decimal (s @ [c]) = 10 * nat_of_decimal s + (of_char c - 48)"
  by (simp add: nat_of_decimal_def)

lemma nat_of_decimal_decimal: "nat_of_decimal (decimal n) = n"
proof (induction n rule: decimal.induct)
  case (1 n)
  show ?case
  proof (cases "n < 10")
    case True
    then show ?thesis by (subst decimal.simps) (simp add: nat_of_decimal_def of_char_digit_char)
  next
    case False
    with 1 show ?thesis 
      by (subst decimal.simps) (simp add: nat_of_decimal_snoc of_char_digit_char)
  qed
qed

lemma nat_of_decimal_zeros: "nat_of_decimal (replicate k CHR ''0'' @ s) = nat_of_decimal s"
  by (induction k) (simp_all add: nat_of_decimal_def)

lemma Sprintf_0d_padded:
  assumes "0 < sint dig" "unat m < 10 ^ nat (sint dig)"
  shows "length (Sprintf_0d dig m) = nat (sint dig)"
    and "list_all is_digit (Sprintf_0d dig m)"
    and "nat_of_decimal (Sprintf_0d dig m) = unat m"
proof -
  have l: "length (decimal (unat m)) \<le> nat (sint dig)"
    using assms by (intro decimal_length) simp_all
  have z: "is_digit CHR ''0''" by (simp add: is_digit_def)
  show "length (Sprintf_0d dig m) = nat (sint dig)"
    using assms(1) l by (simp add: Sprintf_0d_def Let_def)
  show "list_all is_digit (Sprintf_0d dig m)"
    using assms(1) z decimal_all_digits [of "unat m"] by (auto simp: Sprintf_0d_def Let_def list_all_iff)
  show "nat_of_decimal (Sprintf_0d dig m) = unat m"
    using assms(1) by (simp add: Sprintf_0d_def Let_def nat_of_decimal_zeros nat_of_decimal_decimal)
qed

lemma sint_word_of_nat_small:
  assumes "v < 2 ^ 31"
  shows "sint (word_of_nat v :: int64) = int v"
proof -
  have "int v < 2 ^ 31" using assms by (metis of_nat_less_iff of_nat_numeral of_nat_power)
  then have "int v < 2 ^ 63" by simp
  then show ?thesis
    by (simp add: signed_of_nat signed_take_bit_int_eq_self)
qed

lemma smod_nonneg: "0 \<le> a \<Longrightarrow> 0 < b \<Longrightarrow> (a :: int) smod b = a mod b"
  by (cases "a = 0") (simp_all add: smod_int_alt_def)

lemma rem_int64_value:
  assumes "v < 2 ^ 31" "0 < M" "M < 2 ^ 31"
  shows "unat (rem_int64 (word_of_nat v) (word_of_nat M)) = v mod M"
proof -
  have "v mod M < 2 ^ 31" using assms(1) by (rule le_less_trans [OF mod_less_eq_dividend])
  then have b: "v mod M < 2 ^ 64" by simp
  have "rem_int64 (word_of_nat v) (word_of_nat M) = word_of_int (int v mod int M)"
    using assms by (simp add: rem_int64_def sint_word_of_nat_small smod_nonneg)
  also have "\<dots> = word_of_nat (v mod M)" by (simp flip: zmod_int)
  finally show ?thesis using b by (simp add: unat_of_nat)
qed


text \<open>
  C1. For a hash of size 20, 32 or 64 (SHA-1, SHA-256, SHA-512) whose digest has that
  length, any 8-byte counter and 6, 7 or 8 digits, \<^verbatim>\<open>truncateHash\<close> returns the
  RFC 4226 value (offset: low nibble of the last byte; value: the big-endian integer of
  the four bytes at the offset with the top bit masked, below \<open>2 ^ 31\<close>), and
  \<^verbatim>\<open>calculateToken\<close> returns a string of exactly \<open>digits\<close> decimal digits that
  reads as that value modulo \<open>10 ^ digits\<close>.
\<close>

theorem calculateToken_rfc4226:
  assumes "Size h \<in> {20, 32, 64}"
    and "length (Sum h ctr) = unat (Size h)"
    and "dig \<in> {6, 7, 8}"
  shows "truncateHash (Sum h ctr) (Size h) = Some (word_of_nat (rfc4226_value (Sum h ctr))) \<and>
         rfc4226_value (Sum h ctr) < 2 ^ 31 \<and>
         (\<exists>token. calculateToken ctr dig h = Some token \<and>
            length token = unat dig \<and> list_all is_digit token \<and>
            nat_of_decimal token = rfc4226_value (Sum h ctr) mod 10 ^ unat dig)"
proof -
  let ?v = "rfc4226_value (Sum h ctr)"
  have t: "truncateHash (Sum h ctr) (Size h) = Some (word_of_nat ?v)"
    using assms(1,2) by (rule truncateHash_value)
  have v: "?v < 2 ^ 31" by (rule rfc4226_value_lt)
  define m :: uint64 where "m = rem_int64 (word_of_nat ?v) (word_of_nat (10 ^ unat dig))"
  have d: "0 < sint dig" "nat (sint dig) = unat dig" "(10::nat) ^ unat dig < 2 ^ 31"
    using assms(3) by auto
  have m: "unat m = ?v mod 10 ^ unat dig"
    unfolding m_def using v d(3) by (intro rem_int64_value) simp_all
  then have lt: "unat m < 10 ^ nat (sint dig)" by (simp add: d(2))
  have c: "calculateToken ctr dig h = Some (Sprintf_0d dig m)"
    using assms(3) by (auto simp: calculateToken_def t m_def Let_def)
  show ?thesis
    using t v c Sprintf_0d_padded [OF d(1) lt] by (simp add: d(2) m)
qed

theorem calculateToken_rfc4226_witness:
  "truncateHash [0x1f, 0x86, 0x98, 0x69, 0x0e, 0x02, 0xca, 0x16, 0x61, 0x85,
                 0x50, 0xef, 0x7f, 0x19, 0xda, 0x8e, 0x94, 0x5b, 0x55, 0x5a] 20 = Some 0x50ef7f19 \<and>
   (\<exists>token. calculateToken [0, 0, 0, 0, 0, 0, 0, 1] 6
        \<lparr>Sum = (\<lambda>_. [0x1f, 0x86, 0x98, 0x69, 0x0e, 0x02, 0xca, 0x16, 0x61, 0x85,
                       0x50, 0xef, 0x7f, 0x19, 0xda, 0x8e, 0x94, 0x5b, 0x55, 0x5a]), Size = 20\<rparr> = Some token \<and>
      length token = 6 \<and> list_all is_digit token \<and> nat_of_decimal token = 872921)"
  using calculateToken_rfc4226 [of "\<lparr>Sum = (\<lambda>_. [0x1f, 0x86, 0x98, 0x69, 0x0e, 0x02, 0xca, 0x16, 0x61, 0x85,
                       0x50, 0xef, 0x7f, 0x19, 0xda, 0x8e, 0x94, 0x5b, 0x55, 0x5a]), Size = 20\<rparr>"
         "[0, 0, 0, 0, 0, 0, 0, 1]" 6]
  by (simp add: rfc4226_value_def rfc4226_offset_def)

section \<open>Properties of the validation\<close>

lemma time_Now_eq: "time_Now clk = (clk 0, tick clk)"
  by (simp add: time_Now_def tick_def)

lemma incrementCounter_Some:
  assumes "stepSize otp \<noteq> 0"
  shows "\<exists>n. incrementCounter otp idx clk = Some (otp\<lparr>counter := bigEndianUint64 n\<rparr>, tick clk)"
  using assms by (simp add: incrementCounter_def increment_def time_Now_eq Let_def) (rule exI, rule refl)

lemma calculateToken_Some:
  assumes "Size h \<in> {20, 32, 64}" "length (Sum h c) = unat (Size h)"
  shows "\<exists>token. calculateToken c dig h = Some token"
  using truncateHash_value [OF assms] by (simp add: calculateToken_def Let_def)

lemma calculateTOTP_Some:
  assumes "stepSize otp \<noteq> 0" "hmac_ok cr"
  shows "\<exists>token c. calculateTOTP cr otp idx clk = Some (token, otp\<lparr>counter := c\<rparr>, tick clk)"
proof -
  obtain n where n: "incrementCounter otp idx clk = Some (otp\<lparr>counter := bigEndianUint64 n\<rparr>, tick clk)"
    using incrementCounter_Some [OF assms(1)] by blast
  define h where "h = (if hashFunction otp = crypto_SHA256 then hmac_New cr sha256_New (key otp)
               else if hashFunction otp = crypto_SHA512 then hmac_New cr sha512_New (key otp)
               else hmac_New cr sha1_New (key otp))"
  have "Size h \<in> {20, 32, 64}" "length (Sum h (bigEndianUint64 n)) = unat (Size h)"
    using assms(2) by (simp_all add: hmac_ok_def h_def)
  then obtain token where "calculateToken (bigEndianUint64 n) (digits otp) h = Some token"
    using calculateToken_Some by blast
  then show ?thesis
    unfolding calculateTOTP_def Let_def h_def [symmetric] n by simp (rule exI, rule refl)
qed

lemma calculateTOTP_frame:
  assumes "calculateTOTP cr otp idx clk = Some (token, otp', clk')"
  shows "otp' = otp\<lparr>counter := counter otp'\<rparr> \<and> clk' = tick clk"
  using assms
  by (auto simp: calculateTOTP_def incrementCounter_def time_Now_eq Let_def
           split: if_splits Option.bind_splits)


lemma three_codes_Some:
  assumes "stepSize otp \<noteq> 0" "hmac_ok cr"
  shows "\<exists>c0 c1 c2. three_codes cr otp clk = Some (c0, c1, c2)"
proof -
  obtain c0 n0 where 0: "calculateTOTP cr otp (- 1) clk = Some (c0, otp\<lparr>counter := n0\<rparr>, tick clk)"
    using calculateTOTP_Some [OF assms] by blast
  have s1: "stepSize (otp\<lparr>counter := n0\<rparr>) \<noteq> 0" using assms(1) by simp
  obtain c1 n1 where 1: "calculateTOTP cr (otp\<lparr>counter := n0\<rparr>) 0 (tick clk)
      = Some (c1, otp\<lparr>counter := n1\<rparr>, tick (tick clk))"
    using calculateTOTP_Some [OF s1 assms(2), of 0 "tick clk"] by auto
  have s2: "stepSize (otp\<lparr>counter := n1\<rparr>) \<noteq> 0" using assms(1) by simp
  obtain c2 n2 where 2: "calculateTOTP cr (otp\<lparr>counter := n1\<rparr>) 1 (tick (tick clk))
      = Some (c2, otp\<lparr>counter := n2\<rparr>, tick (tick (tick clk)))"
    using calculateTOTP_Some [OF s2 assms(2), of 1 "tick (tick clk)"] by auto
  show ?thesis by (simp add: three_codes_def 0 1 2)
qed

text \<open>What \<^verbatim>\<open>Validate\<close> does in the Open state, by the digests of the three codes.\<close>

lemma Validate_open:
  assumes "sint (totalVerificationFailures otp) < 3" "userCode \<noteq> []"
    and "three_codes cr otp clk = Some (c0, c1, c2)"
  shows "\<exists>ctr. Validate cr userCode otp clk =
    (if token_hash cr c1 = token_hash cr userCode then Some (None, otp\<lparr>counter := ctr\<rparr>, tick (tick (tick clk)))
     else if token_hash cr c0 = token_hash cr userCode
       then Some (None, otp\<lparr>counter := ctr, clientOffset := - 1\<rparr>, tick (tick (tick clk)))
     else if token_hash cr c2 = token_hash cr userCode
       then Some (None, otp\<lparr>counter := ctr, clientOffset := 1\<rparr>, tick (tick (tick clk)))
     else Some (Some Mismatch,
            otp\<lparr>counter := ctr, totalVerificationFailures := totalVerificationFailures otp + 1,
                lastVerificationTime := clk 3\<rparr>, tick (tick (tick (tick clk)))))"
proof -
  from assms(3) obtain otp1 clk1 otp2 clk2 otp3 clk3 where
    0: "calculateTOTP cr otp (- 1) clk = Some (c0, otp1, clk1)" and
    1: "calculateTOTP cr otp1 0 clk1 = Some (c1, otp2, clk2)" and
    2: "calculateTOTP cr otp2 1 clk2 = Some (c2, otp3, clk3)"
    by (auto simp: three_codes_def split: Option.bind_splits)
  note f0 = calculateTOTP_frame [OF 0] and f1 = calculateTOTP_frame [OF 1] and f2 = calculateTOTP_frame [OF 2]
  have clk3: "clk3 = tick (tick (tick clk))" using f0 f1 f2 by simp
  have otp3: "otp3 = otp\<lparr>counter := counter otp3\<rparr>"
    using f0 f1 f2 by (metis totp.update_convs(2) totp.surjective totp.select_convs)
  define ctr where "ctr = counter otp3"
  have r2: "calculateTOTP cr otp2 1 clk2 = Some (c2, otp\<lparr>counter := ctr\<rparr>, tick (tick (tick clk)))"
    using 2 otp3 clk3 by (simp add: ctr_def)
  have open': "\<not> sint MAX_FAILURES \<le> sint (totalVerificationFailures otp)"
    using assms(1) by (simp add: MAX_FAILURES_def)
  have "Validate cr userCode otp clk =
    (if token_hash cr c1 = token_hash cr userCode then Some (None, otp\<lparr>counter := ctr\<rparr>, tick (tick (tick clk)))
     else if token_hash cr c0 = token_hash cr userCode
       then Some (None, otp\<lparr>counter := ctr, clientOffset := - 1\<rparr>, tick (tick (tick clk)))
     else if token_hash cr c2 = token_hash cr userCode
       then Some (None, otp\<lparr>counter := ctr, clientOffset := 1\<rparr>, tick (tick (tick clk)))
     else Some (Some Mismatch,
            otp\<lparr>counter := ctr, totalVerificationFailures := totalVerificationFailures otp + 1,
                lastVerificationTime := clk 3\<rparr>, tick (tick (tick (tick clk)))))"
    using assms(2) open'
    by (simp add: Validate_def 0 1 r2 Let_def synchronizeCounter_def time_Now_eq Mismatch_def
          tick_def eval_nat_numeral)
  then show ?thesis by blast
qed

lemma hmac_ok_toy: "hmac_ok toy"
  by (auto simp: hmac_ok_def toy_def)

lemma calculateTOTP_counter:
  "map_option fst (calculateTOTP cr (otp\<lparr>counter := c\<rparr>) idx clk) = map_option fst (calculateTOTP cr otp idx clk)"
  by (simp add: calculateTOTP_def incrementCounter_def Let_def time_Now_eq split: Option.bind_split)

lemma three_codes_eval:
  assumes "map_option fst (calculateTOTP cr otp (- 1) clk) = Some c0"
    and "map_option fst (calculateTOTP cr otp 0 (tick clk)) = Some c1"
    and "map_option fst (calculateTOTP cr otp 1 (tick (tick clk))) = Some c2"
  shows "three_codes cr otp clk = Some (c0, c1, c2)"
proof -
  from assms(1) obtain otp1 clk1 where 0: "calculateTOTP cr otp (- 1) clk = Some (c0, otp1, clk1)" by auto
  note f0 = calculateTOTP_frame [OF 0]
  have "map_option fst (calculateTOTP cr otp1 0 clk1) = Some c1"
    using f0 assms(2) calculateTOTP_counter [where cr = cr and otp = otp and c = "counter otp1" and idx = 0 and clk = "tick clk"] by simp
  then obtain otp2 clk2 where 1: "calculateTOTP cr otp1 0 clk1 = Some (c1, otp2, clk2)" by auto
  note f1 = calculateTOTP_frame [OF 1]
  have "otp2 = otp\<lparr>counter := counter otp2\<rparr>" using f0 f1 by (metis totp.update_convs(2) totp.surjective)
  then have "map_option fst (calculateTOTP cr otp2 1 clk2) = Some c2"
    using f0 f1 assms(3) calculateTOTP_counter [where cr = cr and otp = otp and c = "counter otp2" and idx = 1 and clk = "tick (tick clk)"] by simp
  then obtain otp3 clk3 where 2: "calculateTOTP cr otp2 1 clk2 = Some (c2, otp3, clk3)" by auto
  show ?thesis by (simp add: three_codes_def 0 1 2)
qed

lemma sample_codes: "three_codes toy sample_totp sample_clock = Some (''000000'', ''000001'', ''000002'')"
proof (rule three_codes_eval)
  show "map_option fst (calculateTOTP toy sample_totp (- 1) sample_clock) = Some ''000000''"
    by code_simp
  show "map_option fst (calculateTOTP toy sample_totp 0 (tick sample_clock)) = Some ''000001''"
    by code_simp
  show "map_option fst (calculateTOTP toy sample_totp 1 (tick (tick sample_clock))) = Some ''000002''"
    by code_simp
qed


lemma Validate_locked:
  assumes "3 \<le> sint (totalVerificationFailures otp)" "userCode \<noteq> []"
    and "clk 0 - lastVerificationTime otp \<le> 5 * 60 * 1000000000"
  shows "Validate cr userCode otp clk = Some (Some Locked, otp, tick clk)"
  using assms
  by (simp add: Validate_def MAX_FAILURES_def validBackoffTime_def time_Now_eq time_After_def
        time_Add_def BACKOFF_MINUTES_def time_Minute_def Locked_def Let_def)

lemma Validate_reopened:
  assumes "3 \<le> sint (totalVerificationFailures otp)" "userCode \<noteq> []"
    and "5 * 60 * 1000000000 < clk 0 - lastVerificationTime otp"
    and "5 * 60 * 1000000000 < clk 1 - lastVerificationTime otp"
  shows "Validate cr userCode otp clk =
         Validate cr userCode (otp\<lparr>totalVerificationFailures := 0\<rparr>) (tick (tick clk))"
  using assms
  by (simp add: Validate_def MAX_FAILURES_def validBackoffTime_def time_Now_eq time_After_def
        time_Add_def BACKOFF_MINUTES_def time_Minute_def Let_def tick_def)

lemma calculateTOTP_clientOffset:
  assumes "calculateTOTP cr otp idx clk = Some (token, otp', clk')"
  shows "clientOffset otp' = clientOffset otp \<and> totalVerificationFailures otp' = totalVerificationFailures otp"
proof -
  from calculateTOTP_frame [OF assms] have "otp' = otp\<lparr>counter := counter otp'\<rparr>" by simp
  then show ?thesis by (metis totp.select_convs(7,8) totp.surjective totp.update_convs(2))
qed

lemma Validate_clientOffset:
  assumes "Validate cr userCode otp clk = Some (e, otp', clk')"
  shows "clientOffset otp' = clientOffset otp \<or> (e = None \<and> (clientOffset otp' = - 1 \<or> clientOffset otp' = 1))"
proof (cases "userCode = []")
  case True
  with assms show ?thesis by (simp add: Validate_def)
next
  case False
  show ?thesis
  proof (cases "\<exists>c. Validate cr userCode otp clk = Some (Some Locked, otp, c)")
    case True
    with assms show ?thesis by auto
  next
    case nl: False
    obtain otp0 clk2 where
      v: "Validate cr userCode otp clk = 
            do {
            (code0, otp1, clk3) \<leftarrow> calculateTOTP cr otp0 (- 1) clk2;
            (code1, otp2, clk4) \<leftarrow> calculateTOTP cr otp1 0 clk3;
            (code2, otp3, clk5) \<leftarrow> calculateTOTP cr otp2 1 clk4;
            let tokens = [token_hash cr code0, token_hash cr code1, token_hash cr code2] in
            if tokens ! 1 = token_hash cr userCode then Some (None, otp3, clk5)
            else if tokens ! 0 = token_hash cr userCode then Some (None, synchronizeCounter otp3 (- 1), clk5)
            else if tokens ! 2 = token_hash cr userCode then Some (None, synchronizeCounter otp3 1, clk5)
            else
              let otp4 = otp3\<lparr>totalVerificationFailures := totalVerificationFailures otp3 + 1\<rparr>;
                  (now, clk6) = time_Now clk5;
                  otp5 = otp4\<lparr>lastVerificationTime := now\<rparr>
              in Some (Some (errors_New ''Tokens mismatch.''), otp5, clk6) }"
      and o: "clientOffset otp0 = clientOffset otp"
      using False nl
      by (auto simp: Validate_def Let_def Locked_def split: prod.splits if_splits) 
    from assms [unfolded v] obtain c0 otp1 clk3 c1 otp2 clk4 c2 otp3 clk5 where
      0: "calculateTOTP cr otp0 (- 1) clk2 = Some (c0, otp1, clk3)" and
      1: "calculateTOTP cr otp1 0 clk3 = Some (c1, otp2, clk4)" and
      2: "calculateTOTP cr otp2 1 clk4 = Some (c2, otp3, clk5)"
      by (auto split: Option.bind_splits)
    have "clientOffset otp3 = clientOffset otp"
      using calculateTOTP_clientOffset [OF 0] calculateTOTP_clientOffset [OF 1]
        calculateTOTP_clientOffset [OF 2] o by simp
    with assms [unfolded v] show ?thesis
      by (auto simp: 0 1 2 Let_def synchronizeCounter_def time_Now_eq split: if_splits)
  qed
qed

lemma OTP_clientOffset:
  assumes "OTP cr otp clk = Some (token, otp', clk')"
  shows "clientOffset otp' = clientOffset otp"
  using assms calculateTOTP_clientOffset unfolding OTP_def by blast

text \<open>
  C8. For every credential, \<^verbatim>\<open>Validate("")\<close> returns the InvalidInput error and leaves
  every field of the credential (and the clock) as it was.
\<close>

theorem Validate_empty:
  "Validate cr [] otp clk = Some (Some InvalidInput, otp, clk)"
  by (simp add: Validate_def InvalidInput_def)

text \<open>
  C10. The empty-input check comes before the lockout check: for a credential with three
  or more failures inside the backoff window, where any non-empty code gets the Locked
  error, \<^verbatim>\<open>Validate("")\<close> returns the InvalidInput error, which is a different error.
\<close>

theorem Validate_empty_precedes_lockout:
  assumes "3 \<le> sint (totalVerificationFailures otp)"
    and "clk 0 - lastVerificationTime otp \<le> 5 * 60 * 1000000000"
    and "userCode \<noteq> []"
  shows "Validate cr [] otp clk = Some (Some InvalidInput, otp, clk) \<and>
         Validate cr userCode otp clk = Some (Some Locked, otp, tick clk) \<and>
         InvalidInput \<noteq> Locked"
  using assms Validate_locked [of otp userCode clk cr]
  by (simp add: Validate_def InvalidInput_def Locked_def)

theorem Validate_empty_precedes_lockout_witness:
  "Validate toy [] locked_totp sample_clock = Some (Some InvalidInput, locked_totp, sample_clock) \<and>
   Validate toy ''123456'' locked_totp sample_clock = Some (Some Locked, locked_totp, tick sample_clock)"
  using Validate_empty_precedes_lockout [of locked_totp sample_clock "''123456''" toy]
  by (simp add: locked_totp_def sample_totp_def sample_clock_def)

text \<open>
  C4, as the claim states it, fails on the boundary: exactly five minutes after the last
  failure the credential is still locked, the error is Locked and the three failures stay.
\<close>

theorem Validate_backoff_boundary_counterexample:
  "3 \<le> sint (totalVerificationFailures locked_totp) \<and>
   5 * 60 * 1000000000 \<le> boundary_clock 0 - lastVerificationTime locked_totp \<and>
   Validate toy ''000001'' locked_totp boundary_clock = Some (Some Locked, locked_totp, tick boundary_clock) \<and>
   totalVerificationFailures locked_totp \<noteq> 0"
  by (simp add: Validate_locked locked_totp_def sample_totp_def boundary_clock_def)

text \<open>
  C4, amended. For a credential with three or more failures and a non-empty code: while
  the clock reads at most five minutes after \<^verbatim>\<open>lastVerificationTime\<close>, \<^verbatim>\<open>Validate\<close>
  returns the Locked error and changes no field; once it reads more than five minutes
  after it (at both readings of the lockout check, which a clock that does not run
  backwards gives), \<^verbatim>\<open>Validate\<close> behaves as the validation of the same code on the
  credential with \<^verbatim>\<open>totalVerificationFailures\<close> reset to 0.
\<close>

theorem Validate_lockout_window:
  assumes "3 \<le> sint (totalVerificationFailures otp)" and "userCode \<noteq> []"
  shows "(clk 0 - lastVerificationTime otp \<le> 5 * 60 * 1000000000 \<longrightarrow>
            Validate cr userCode otp clk = Some (Some Locked, otp, tick clk)) \<and>
         (5 * 60 * 1000000000 < clk 0 - lastVerificationTime otp \<and> clk 0 \<le> clk 1 \<longrightarrow>
            Validate cr userCode otp clk =
            Validate cr userCode (otp\<lparr>totalVerificationFailures := 0\<rparr>) (tick (tick clk)))"
  using assms Validate_locked [of otp userCode clk cr] Validate_reopened [of otp userCode clk cr]
  by auto

theorem Validate_lockout_window_witness:
  "Validate toy ''000001'' locked_totp sample_clock = Some (Some Locked, locked_totp, tick sample_clock) \<and>
   Validate toy ''000001'' locked_totp late_clock =
   Validate toy ''000001'' (locked_totp\<lparr>totalVerificationFailures := 0\<rparr>) (tick (tick late_clock))"
  using Validate_lockout_window [of locked_totp "''000001''" sample_clock toy]
    Validate_lockout_window [of locked_totp "''000001''" late_clock toy]
  by (simp add: locked_totp_def sample_totp_def sample_clock_def late_clock_def)

lemma sint_succ_small:
  assumes "sint (w :: go_int) < 3"
  shows "sint (w + 1) = sint w + 1"
proof -
  have "- (2 ^ 63) \<le> sint w" using sint_ge [of w] by simp
  then have "signed_take_bit 63 (sint w + 1) = sint w + 1"
    using assms by (intro signed_take_bit_int_eq_self) simp_all
  then show ?thesis by (simp add: sint_word_ariths)
qed

lemma toy_hashes:
  "token_hash toy ''000000'' \<noteq> token_hash toy ''123456''"
  "token_hash toy ''000001'' \<noteq> token_hash toy ''123456''"
  "token_hash toy ''000002'' \<noteq> token_hash toy ''123456''"
  "token_hash toy ''000001'' \<noteq> token_hash toy ''000000''"
  "token_hash toy ''000001'' \<noteq> token_hash toy ''000002''"
  "token_hash toy ''000000'' \<noteq> token_hash toy ''000002''"
  by code_simp+

text \<open>
  C7. In the Open state (fewer than three failures), with a step size other than 0 and
  digests of the right sizes, the three codes are computed; when the digest of a
  non-empty candidate equals the digest of none of them (the comparison
  \<^verbatim>\<open>Validate\<close> makes), \<^verbatim>\<open>Validate\<close> returns the Mismatch error, adds exactly 1
  to \<^verbatim>\<open>totalVerificationFailures\<close> and sets \<^verbatim>\<open>lastVerificationTime\<close> to the clock
  reading it takes then, the fourth of the call.
\<close>

theorem Validate_mismatch:
  assumes "stepSize otp \<noteq> 0" and "hmac_ok cr"
    and "sint (totalVerificationFailures otp) < 3" and "userCode \<noteq> []"
  shows "\<exists>c0 c1 c2 ctr. three_codes cr otp clk = Some (c0, c1, c2) \<and>
     (token_hash cr c0 \<noteq> token_hash cr userCode \<and> token_hash cr c1 \<noteq> token_hash cr userCode \<and>
      token_hash cr c2 \<noteq> token_hash cr userCode \<longrightarrow>
        Validate cr userCode otp clk =
          Some (Some Mismatch,
                otp\<lparr>counter := ctr,
                    totalVerificationFailures := totalVerificationFailures otp + 1,
                    lastVerificationTime := clk 3\<rparr>,
                tick (tick (tick (tick clk)))) \<and>
        sint (totalVerificationFailures otp + 1) = sint (totalVerificationFailures otp) + 1)"
proof -
  obtain c0 c1 c2 where c: "three_codes cr otp clk = Some (c0, c1, c2)"
    using three_codes_Some [OF assms(1,2)] by blast
  obtain ctr where "Validate cr userCode otp clk =
    (if token_hash cr c1 = token_hash cr userCode then Some (None, otp\<lparr>counter := ctr\<rparr>, tick (tick (tick clk)))
     else if token_hash cr c0 = token_hash cr userCode
       then Some (None, otp\<lparr>counter := ctr, clientOffset := - 1\<rparr>, tick (tick (tick clk)))
     else if token_hash cr c2 = token_hash cr userCode
       then Some (None, otp\<lparr>counter := ctr, clientOffset := 1\<rparr>, tick (tick (tick clk)))
     else Some (Some Mismatch,
            otp\<lparr>counter := ctr, totalVerificationFailures := totalVerificationFailures otp + 1,
                lastVerificationTime := clk 3\<rparr>, tick (tick (tick (tick clk)))))"
    using Validate_open [OF assms(3,4) c] by blast
  then show ?thesis
    using c sint_succ_small [OF assms(3)] by auto
qed

theorem Validate_mismatch_witness:
  "map_option fst (Validate toy ''123456'' sample_totp sample_clock) = Some (Some Mismatch) \<and>
   map_option (totalVerificationFailures \<circ> fst \<circ> snd) (Validate toy ''123456'' sample_totp sample_clock) = Some 3 \<and>
   map_option (lastVerificationTime \<circ> fst \<circ> snd) (Validate toy ''123456'' sample_totp sample_clock) = Some 59000000000"
proof -
  have h: "stepSize sample_totp \<noteq> 0" "sint (totalVerificationFailures sample_totp) < 3"
    by (simp_all add: sample_totp_def)
  from Validate_mismatch [OF h(1) hmac_ok_toy h(2), of "''123456''" sample_clock]
  obtain ctr where "Validate toy ''123456'' sample_totp sample_clock =
      Some (Some Mismatch,
            sample_totp\<lparr>counter := ctr,
               totalVerificationFailures := totalVerificationFailures sample_totp + 1,
               lastVerificationTime := sample_clock 3\<rparr>,
            tick (tick (tick (tick sample_clock))))"
    by (auto simp: sample_codes toy_hashes)
  then show ?thesis by (simp add: sample_totp_def sample_clock_def)
qed


text \<open>
  C6. In the Open state, with a step size other than 0 and digests of the right sizes,
  the three codes are computed, and \<^verbatim>\<open>Validate\<close> tests them in the order of the
  steps \<open>0\<close>, \<open>-1\<close>, \<open>+1\<close>: a candidate equal to the code of step \<open>0\<close> succeeds
  and leaves \<^verbatim>\<open>clientOffset\<close>; a candidate equal to the code of step \<open>-1\<close> (and not
  accepted at step \<open>0\<close>) succeeds and sets \<^verbatim>\<open>clientOffset\<close> to \<open>-1\<close>; a candidate
  equal to the code of step \<open>+1\<close> (and not accepted before) succeeds and sets it to
  \<open>+1\<close>. In the three cases only the counter and \<^verbatim>\<open>clientOffset\<close> differ from the
  credential before the call, so \<^verbatim>\<open>totalVerificationFailures\<close> is not incremented.
  In any state, a call of \<^verbatim>\<open>Validate\<close> that changes \<^verbatim>\<open>clientOffset\<close> has succeeded
  and set it to \<open>-1\<close> or \<open>+1\<close>, and \<^verbatim>\<open>OTP\<close> does not change it.
\<close>

theorem Validate_match_resync:
  "(stepSize otp \<noteq> 0 \<and> hmac_ok cr \<and> sint (totalVerificationFailures otp) < 3 \<and> userCode \<noteq> [] \<longrightarrow>
     (\<exists>c0 c1 c2 ctr. three_codes cr otp clk = Some (c0, c1, c2) \<and>
        (userCode = c1 \<longrightarrow>
           Validate cr userCode otp clk = Some (None, otp\<lparr>counter := ctr\<rparr>, tick (tick (tick clk)))) \<and>
        (userCode = c0 \<and> token_hash cr c1 \<noteq> token_hash cr userCode \<longrightarrow>
           Validate cr userCode otp clk =
             Some (None, otp\<lparr>counter := ctr, clientOffset := - 1\<rparr>, tick (tick (tick clk)))) \<and>
        (userCode = c2 \<and> token_hash cr c1 \<noteq> token_hash cr userCode \<and>
         token_hash cr c0 \<noteq> token_hash cr userCode \<longrightarrow>
           Validate cr userCode otp clk =
             Some (None, otp\<lparr>counter := ctr, clientOffset := 1\<rparr>, tick (tick (tick clk)))))) \<and>
   (\<forall>e otp' clk'. Validate cr userCode otp clk = Some (e, otp', clk') \<longrightarrow>
      clientOffset otp' = clientOffset otp \<or>
      (e = None \<and> (clientOffset otp' = - 1 \<or> clientOffset otp' = 1))) \<and>
   (\<forall>token otp' clk'. OTP cr otp clk = Some (token, otp', clk') \<longrightarrow>
      clientOffset otp' = clientOffset otp)"
proof (intro conjI impI allI)
  assume a: "stepSize otp \<noteq> 0 \<and> hmac_ok cr \<and> sint (totalVerificationFailures otp) < 3 \<and> userCode \<noteq> []"
  obtain c0 c1 c2 where c: "three_codes cr otp clk = Some (c0, c1, c2)"
    using three_codes_Some [of otp cr clk] a by blast
  obtain ctr where "Validate cr userCode otp clk =
    (if token_hash cr c1 = token_hash cr userCode then Some (None, otp\<lparr>counter := ctr\<rparr>, tick (tick (tick clk)))
     else if token_hash cr c0 = token_hash cr userCode
       then Some (None, otp\<lparr>counter := ctr, clientOffset := - 1\<rparr>, tick (tick (tick clk)))
     else if token_hash cr c2 = token_hash cr userCode
       then Some (None, otp\<lparr>counter := ctr, clientOffset := 1\<rparr>, tick (tick (tick clk)))
     else Some (Some Mismatch,
            otp\<lparr>counter := ctr, totalVerificationFailures := totalVerificationFailures otp + 1,
                lastVerificationTime := clk 3\<rparr>, tick (tick (tick (tick clk)))))"
    using Validate_open [of otp userCode cr clk c0 c1 c2] a c by blast
  then show "\<exists>c0 c1 c2 ctr. three_codes cr otp clk = Some (c0, c1, c2) \<and>
        (userCode = c1 \<longrightarrow>
           Validate cr userCode otp clk = Some (None, otp\<lparr>counter := ctr\<rparr>, tick (tick (tick clk)))) \<and>
        (userCode = c0 \<and> token_hash cr c1 \<noteq> token_hash cr userCode \<longrightarrow>
           Validate cr userCode otp clk =
             Some (None, otp\<lparr>counter := ctr, clientOffset := - 1\<rparr>, tick (tick (tick clk)))) \<and>
        (userCode = c2 \<and> token_hash cr c1 \<noteq> token_hash cr userCode \<and>
         token_hash cr c0 \<noteq> token_hash cr userCode \<longrightarrow>
           Validate cr userCode otp clk =
             Some (None, otp\<lparr>counter := ctr, clientOffset := 1\<rparr>, tick (tick (tick clk))))"
    using c by auto
next
  fix e otp' clk'
  assume "Validate cr userCode otp clk = Some (e, otp', clk')"
  then show "clientOffset otp' = clientOffset otp \<or>
      (e = None \<and> (clientOffset otp' = - 1 \<or> clientOffset otp' = 1))"
    by (rule Validate_clientOffset)
next
  fix token otp' clk'
  assume "OTP cr otp clk = Some (token, otp', clk')"
  then show "clientOffset otp' = clientOffset otp" by (rule OTP_clientOffset)
qed

theorem Validate_match_resync_witness:
  "map_option fst (Validate toy ''000000'' sample_totp sample_clock) = Some None \<and>
   map_option (clientOffset \<circ> fst \<circ> snd) (Validate toy ''000000'' sample_totp sample_clock) = Some (- 1) \<and>
   map_option (totalVerificationFailures \<circ> fst \<circ> snd) (Validate toy ''000000'' sample_totp sample_clock) = Some 2 \<and>
   map_option fst (Validate toy ''000001'' sample_totp sample_clock) = Some None \<and>
   map_option (clientOffset \<circ> fst \<circ> snd) (Validate toy ''000001'' sample_totp sample_clock) = Some 0 \<and>
   map_option fst (Validate toy ''000002'' sample_totp sample_clock) = Some None \<and>
   map_option (clientOffset \<circ> fst \<circ> snd) (Validate toy ''000002'' sample_totp sample_clock) = Some 1"
proof -
  have h: "stepSize sample_totp \<noteq> 0 \<and> hmac_ok toy \<and> sint (totalVerificationFailures sample_totp) < 3"
    by (simp add: sample_totp_def hmac_ok_toy)
  from Validate_match_resync [of sample_totp toy "''000000''" sample_clock] h
  obtain ctr0 where 0: "Validate toy ''000000'' sample_totp sample_clock =
      Some (None, sample_totp\<lparr>counter := ctr0, clientOffset := - 1\<rparr>, tick (tick (tick sample_clock)))"
    by (auto simp: sample_codes toy_hashes)
  from Validate_match_resync [of sample_totp toy "''000001''" sample_clock] h
  obtain ctr1 where 1: "Validate toy ''000001'' sample_totp sample_clock =
      Some (None, sample_totp\<lparr>counter := ctr1\<rparr>, tick (tick (tick sample_clock)))"
    by (auto simp: sample_codes toy_hashes)
  from Validate_match_resync [of sample_totp toy "''000002''" sample_clock] h
  obtain ctr2 where 2: "Validate toy ''000002'' sample_totp sample_clock =
      Some (None, sample_totp\<lparr>counter := ctr2, clientOffset := 1\<rparr>, tick (tick (tick sample_clock)))"
    by (auto simp: sample_codes toy_hashes)
  show ?thesis by (simp add: 0 1 2) (simp add: sample_totp_def)
qed

section \<open>Properties of the time-step counter\<close>

lemma sdiv_nonneg: "0 \<le> a \<Longrightarrow> 0 < b \<Longrightarrow> (a :: int) sdiv b = a div b"
  by (cases "a = 0") (simp_all add: signed_divide_int_def)

lemma unat_byte_of_drop:
  "unat (ucast (drop_bit k (n :: uint64)) :: byte) = (unat n div 2 ^ k) mod 256"
proof -
  have "unat n < (2::nat) ^ 64"
    using unsigned_less [of n] by simp
  then have t: "take_bit 64 (unat n) = unat n"
    by (simp add: take_bit_nat_eq_self)
  have "unat (ucast (drop_bit k n) :: byte) = take_bit 8 (unat (drop_bit k n))"
    by (simp add: unsigned_ucast_eq)
  also have "unat (drop_bit k n) = drop_bit k (take_bit 64 (unat n))"
    by (simp add: unsigned_drop_bit_eq)
  also have "take_bit 8 (drop_bit k (take_bit 64 (unat n))) = (unat n div 2 ^ k) mod 256"
    unfolding t by (simp add: take_bit_eq_mod drop_bit_eq_div)
  finally show ?thesis .
qed

lemma horner_step: "256 * (x div (256 * m)) + (x div m) mod 256 = (x div m :: nat)"
proof -
  have "x div (256 * m) = (x div m) div 256"
    by (simp add: div_mult2_eq mult.commute)
  then show ?thesis by simp
qed

lemma be_nat_bigEndianUint64: "be_nat (bigEndianUint64 n) = unat n"
proof -
  define x where "x = unat n"
  have x: "x < 2 ^ 64" unfolding x_def using unsigned_less [of n] by simp
  have b: "\<And>k. unat (ucast (drop_bit k n) :: byte) = (x div 2 ^ k) mod 256"
    unfolding x_def by (rule unat_byte_of_drop)
  have b0: "unat (ucast n :: byte) = x mod 256"
    using b [of 0] by simp
  have top: "(x div 2 ^ 56) mod 256 = x div 2 ^ 56"
    using x by (simp add: less_mult_imp_div_less)
  have "be_nat (bigEndianUint64 n) =
      256 * (256 * (256 * (256 * (256 * (256 * (256 * (x div 2 ^ 56) + (x div 2 ^ 48) mod 256)
        + (x div 2 ^ 40) mod 256) + (x div 2 ^ 32) mod 256) + (x div 2 ^ 24) mod 256)
        + (x div 2 ^ 16) mod 256) + (x div 2 ^ 8) mod 256) + x mod 256"
    unfolding be_nat_def bigEndianUint64_def foldl.simps b b0 top by simp
  also have "256 * (x div 2 ^ 56) + (x div 2 ^ 48) mod 256 = x div 2 ^ 48"
    using horner_step [of x "2 ^ 48"] by simp
  also have "256 * (x div 2 ^ 48) + (x div 2 ^ 40) mod 256 = x div 2 ^ 40"
    using horner_step [of x "2 ^ 40"] by simp
  also have "256 * (x div 2 ^ 40) + (x div 2 ^ 32) mod 256 = x div 2 ^ 32"
    using horner_step [of x "2 ^ 32"] by simp
  also have "256 * (x div 2 ^ 32) + (x div 2 ^ 24) mod 256 = x div 2 ^ 24"
    using horner_step [of x "2 ^ 24"] by simp
  also have "256 * (x div 2 ^ 24) + (x div 2 ^ 16) mod 256 = x div 2 ^ 16"
    using horner_step [of x "2 ^ 16"] by simp
  also have "256 * (x div 2 ^ 16) + (x div 2 ^ 8) mod 256 = x div 2 ^ 8"
    using horner_step [of x "2 ^ 8"] by simp
  also have "256 * (x div 2 ^ 8) + x mod 256 = x"
    using horner_step [of x 1] by simp
  finally show ?thesis by (simp only: x_def)
qed

lemma sint_word_of_int_small:
  assumes "0 \<le> q" "q < 2 ^ 63"
  shows "sint (word_of_int q :: int64) = q"
  using assms by (simp add: signed_of_int signed_take_bit_int_eq_self)

lemma increment_nonneg:
  assumes "0 \<le> sint ts" "0 < sint step" "sint ts div sint step < 2 ^ 53"
  shows "increment ts step = Some (word_of_int (sint ts div sint step))"
proof -
  let ?q = "sint ts div sint step"
  have s: "step \<noteq> 0" using assms(2) by auto
  have q0: "0 \<le> ?q" using assms(1,2) by (simp add: pos_imp_zdiv_nonneg_iff)
  have q63: "?q < 2 ^ 63" using assms(3) by simp
  have "sint (word_of_int ?q :: int64) = ?q" using q0 q63 by (rule sint_word_of_int_small)
  then have "float64_of_int64 (word_of_int ?q) = ?q"
    using q0 assms(3) by (simp add: float64_of_int64_def Let_def)
  then show ?thesis
    using s assms(1,2) by (simp add: increment_def sdiv_nonneg round_go_def Let_def)
qed

lemma bitlen_max_int64: "bitlen 9223372036854775807 = 63"
proof (rule antisym)
  show "bitlen 9223372036854775807 \<le> 63" by (simp add: bitlen_le_iff_power)
  show "63 \<le> bitlen 9223372036854775807" by (simp add: bitlen_ge_iff_power)
qed

text \<open>
  Beyond 53 bits the conversion to \<^verbatim>\<open>float64\<close> rounds: the largest \<^verbatim>\<open>int64\<close>
  with step size 1 gives \<open>2 ^ 63\<close>, not the quotient.
\<close>

lemma increment_float64_rounding:
  "increment 9223372036854775807 1 = Some 9223372036854775808"
  by (simp add: increment_def float64_of_int64_def round_go_def Let_def signed_divide_int_def
        bitlen_max_int64)

text \<open>
  C5, as the claim states it, fails for a negative time: Go's division truncates towards
  zero, so one second before the epoch with step size 30 gives the counter 0, while the
  floor of the quotient is \<open>-1\<close>.
\<close>

theorem increment_floor_counterexample:
  "increment (- 1) 30 = Some 0 \<and> sint (- 1 :: int64) div sint (30 :: go_int) = - 1 \<and>
   (word_of_int (sint (- 1 :: int64) div sint (30 :: go_int)) :: uint64) \<noteq> 0"
  by (simp add: increment_def float64_of_int64_def round_go_def Let_def signed_divide_int_def)

text \<open>
  C5, amended. For every \<open>unixSeconds \<ge> 0\<close> and positive \<open>stepSize\<close> whose quotient
  is below \<open>2 ^ 53\<close>, \<^verbatim>\<open>increment\<close> returns \<open>floor (unixSeconds / stepSize)\<close>, and
  \<^verbatim>\<open>bigEndianUint64\<close> encodes it as 8 bytes that denote it as a big-endian numeral;
  in particular \<^verbatim>\<open>increment\<close> maps \<open>(1438601387, 30)\<close> to \<open>47953379\<close>.
\<close>

theorem increment_floor:
  "(0 \<le> sint ts \<and> 0 < sint step \<and> sint ts div sint step < 2 ^ 53 \<longrightarrow>
      (\<exists>n. increment ts step = Some n \<and> uint n = sint ts div sint step \<and>
           length (bigEndianUint64 n) = 8 \<and>
           int (be_nat (bigEndianUint64 n)) = sint ts div sint step)) \<and>
   increment 1438601387 30 = Some 47953379"
proof (intro conjI impI)
  assume a: "0 \<le> sint ts \<and> 0 < sint step \<and> sint ts div sint step < 2 ^ 53"
  let ?q = "sint ts div sint step"
  have i: "increment ts step = Some (word_of_int ?q)"
    using a by (intro increment_nonneg) simp_all
  have q0: "0 \<le> ?q" using a by (simp add: pos_imp_zdiv_nonneg_iff)
  have "?q < 2 ^ 64" using a by simp
  then have u: "uint (word_of_int ?q :: uint64) = ?q"
    using q0 by (simp add: uint_word_of_int)
  have "int (be_nat (bigEndianUint64 (word_of_int ?q))) = uint (word_of_int ?q :: uint64)"
    by (simp add: be_nat_bigEndianUint64)
  then show "\<exists>n. increment ts step = Some n \<and> uint n = ?q \<and>
           length (bigEndianUint64 n) = 8 \<and> int (be_nat (bigEndianUint64 n)) = ?q"
    using i u by (simp add: bigEndianUint64_def)
next
  show "increment 1438601387 30 = Some 47953379"
    using increment_nonneg [of 1438601387 30] by simp
qed

theorem increment_floor_witness:
  "map_option uint (increment 59 30) = Some 1 \<and> increment 1438601387 30 = Some 47953379"
  using increment_floor [of 59 30] by auto

section \<open>Properties of the codec\<close>

lemma be32_of_bigEndianInt:
  "foldl (\<lambda>acc b. push_bit 8 acc OR ucast b) (0 :: uint32) (bigEndianInt w) = ucast w"
  unfolding bigEndianInt_def foldl.simps
proof (rule bit_eqI)
  fix n assume "possible_bit TYPE(uint32) n"
  then have n: "n < 32" by simp
  consider "n < 8" | "8 \<le> n" "n < 16" | "16 \<le> n" "n < 24" | "24 \<le> n" by linarith
  then show "bit (push_bit 8 (push_bit 8 (push_bit 8 (push_bit 8 0 OR ucast (ucast (drop_bit 24 w) :: byte)) OR
                ucast (ucast (drop_bit 16 w) :: byte)) OR ucast (ucast (drop_bit 8 w) :: byte)) OR
              ucast (ucast w :: byte) :: uint32) n \<longleftrightarrow> bit (ucast w :: uint32) n"
    using n by cases (auto simp: bit_simps)
qed

lemma uint64_roundtrip: "uint64FromBigEndian (bigEndianUint64 n) = n"
  unfolding bigEndianUint64_def uint64FromBigEndian_def foldl.simps
proof (rule bit_eqI)
  fix k assume "possible_bit TYPE(uint64) k"
  then have k: "k < 64" by simp
  consider "k < 8" | "8 \<le> k" "k < 16" | "16 \<le> k" "k < 24" | "24 \<le> k" "k < 32"
    | "32 \<le> k" "k < 40" | "40 \<le> k" "k < 48" | "48 \<le> k" "k < 56" | "56 \<le> k" by linarith
  then show "bit (push_bit 8 (push_bit 8 (push_bit 8 (push_bit 8 (push_bit 8 (push_bit 8 (push_bit 8
       (push_bit 8 0 OR ucast (ucast (drop_bit 56 n) :: byte)) OR ucast (ucast (drop_bit 48 n) :: byte)) OR
        ucast (ucast (drop_bit 40 n) :: byte)) OR ucast (ucast (drop_bit 32 n) :: byte)) OR
        ucast (ucast (drop_bit 24 n) :: byte)) OR ucast (ucast (drop_bit 16 n) :: byte)) OR
        ucast (ucast (drop_bit 8 n) :: byte)) OR ucast (ucast n :: byte) :: uint64) k \<longleftrightarrow> bit n k"
    using k by cases (auto simp: bit_simps)
qed

lemma byte_of_be64:
  fixes c0 c1 c2 c3 c4 c5 c6 c7 :: byte
  assumes "j < 8"
  shows "(ucast (drop_bit (8 * (7 - j)) (uint64FromBigEndian [c0, c1, c2, c3, c4, c5, c6, c7])) :: byte)
         = [c0, c1, c2, c3, c4, c5, c6, c7] ! j"
proof (rule bit_eqI)
  fix k assume "possible_bit TYPE(byte) k"
  then have k: "k < 8" by simp
  consider "j = 0" | "j = 1" | "j = 2" | "j = 3" | "j = 4" | "j = 5" | "j = 6" | "j = 7"
    using assms by linarith
  then show "bit (ucast (drop_bit (8 * (7 - j)) (uint64FromBigEndian [c0, c1, c2, c3, c4, c5, c6, c7])) :: byte) k
     \<longleftrightarrow> bit ([c0, c1, c2, c3, c4, c5, c6, c7] ! j) k"
    using k by cases (auto simp: uint64FromBigEndian_def bit_simps dest: bit_imp_le_length)
qed

lemma sint_ucast32:
  assumes "- (2 ^ 31) \<le> sint (w :: go_int)" "sint w < 2 ^ 31"
  shows "sint (ucast w :: uint32) = sint w"
proof -
  have "sint (ucast w :: uint32) = signed_take_bit 31 (uint w)"
    by (simp add: signed_ucast_eq)
  also have "\<dots> = signed_take_bit 31 (signed_take_bit 63 (uint w))"
    by simp
  also have "signed_take_bit 63 (uint w) = sint w"
    by (simp add: sint_uint)
  also have "signed_take_bit 31 (sint w) = sint w"
    using assms by (intro signed_take_bit_int_eq_self) simp_all
  finally show ?thesis .
qed

lemma sint_scast32: "sint (scast (u :: uint32) :: go_int) = sint u"
proof -
  have "sint (scast u :: go_int) = signed_take_bit 63 (sint u)"
    by (simp add: signed_scast_eq)
  also have "\<dots> = sint u"
    using sint_ge [of u] sint_lt [of u] by (intro signed_take_bit_int_eq_self) simp_all
  finally show ?thesis .
qed

lemma intFromBigEndian_range:
  "- (2 ^ 31) \<le> sint (intFromBigEndian bs)" "sint (intFromBigEndian bs) < 2 ^ 31"
  using sint_ge [of "foldl (\<lambda>acc b. push_bit 8 acc OR ucast b) (0 :: uint32) bs"]
    sint_lt [of "foldl (\<lambda>acc b. push_bit 8 acc OR ucast b) (0 :: uint32) bs"]
  by (simp_all add: intFromBigEndian_def sint_scast32)

lemma int_roundtrip:
  assumes "- (2 ^ 31) \<le> sint (w :: go_int)" "sint w < 2 ^ 31"
  shows "intFromBigEndian (bigEndianInt w) = w"
proof (rule signed_word_eqI)
  show "sint (intFromBigEndian (bigEndianInt w)) = sint w"
    unfolding intFromBigEndian_def be32_of_bigEndianInt sint_scast32
    using assms by (rule sint_ucast32)
qed

lemma bytes8_roundtrip:
  "bigEndianUint64 (uint64FromBigEndian [c0, c1, c2, c3, c4, c5, c6, c7]) = [c0, c1, c2, c3, c4, c5, c6, c7]"
  using byte_of_be64 [of 0 c0 c1 c2 c3 c4 c5 c6 c7] byte_of_be64 [of 1 c0 c1 c2 c3 c4 c5 c6 c7]
    byte_of_be64 [of 2 c0 c1 c2 c3 c4 c5 c6 c7] byte_of_be64 [of 3 c0 c1 c2 c3 c4 c5 c6 c7]
    byte_of_be64 [of 4 c0 c1 c2 c3 c4 c5 c6 c7] byte_of_be64 [of 5 c0 c1 c2 c3 c4 c5 c6 c7]
    byte_of_be64 [of 6 c0 c1 c2 c3 c4 c5 c6 c7] byte_of_be64 [of 7 c0 c1 c2 c3 c4 c5 c6 c7]
  by (simp add: bigEndianUint64_def)

lemma length_bigEndianInt [simp]: "length (bigEndianInt w) = 4"
  by (simp add: bigEndianInt_def)

lemma length_bigEndianUint64 [simp]: "length (bigEndianUint64 w) = 8"
  by (simp add: bigEndianUint64_def)

lemma write_all_append: "write_all ps buffer = Inr (buffer @ concat ps)"
  by (induction ps arbitrary: buffer) (simp_all add: buffer_Write_def)

lemma list4:
  assumes "length (b :: 'a list) = 4"
  obtains b0 b1 b2 b3 where "b = [b0, b1, b2, b3]"
  using assms by (auto simp: length_Suc_conv eval_nat_numeral)

lemma list8:
  assumes "length (b :: 'a list) = 8"
  obtains b0 b1 b2 b3 b4 b5 b6 b7 where "b = [b0, b1, b2, b3, b4, b5, b6, b7]"
  using assms by (auto simp: length_Suc_conv eval_nat_numeral)

lemma array4_Some:
  assumes "length b = 4"
  shows "array4 b = Some b"
proof -
  obtain b0 b1 b2 b3 where "b = [b0, b1, b2, b3]" using assms by (rule list4)
  then show ?thesis by (simp add: array4_def index_def)
qed

lemma array8_Some:
  assumes "length b = 8"
  shows "array8 b = Some b"
proof -
  obtain b0 b1 b2 b3 b4 b5 b6 b7 where "b = [b0, b1, b2, b3, b4, b5, b6, b7]"
    using assms by (rule list8)
  then show ?thesis by (simp add: array8_def index_def)
qed

lemma counter_roundtrip:
  assumes "length c = 8"
  shows "bigEndianUint64 (uint64FromBigEndian c) = c"
proof -
  obtain b0 b1 b2 b3 b4 b5 b6 b7 where "c = [b0, b1, b2, b3, b4, b5, b6, b7]"
    using assms by (rule list8)
  then show ?thesis by (simp only: bytes8_roundtrip)
qed

lemma int4_bigEndianInt:
  assumes "int32_range w"
  shows "int4 (bigEndianInt w) = Some w"
  using assms by (simp add: int4_def array4_Some int_roundtrip int32_range_def)

lemma int32_range_of_nat:
  assumes "n < 2 ^ 31"
  shows "int32_range (word_of_nat n)" "sint (word_of_nat n :: go_int) = int n"
  using assms sint_word_of_nat_small [OF assms] by (simp_all add: int32_range_def)

lemma string_roundtrip: "string_of_bytes (bytes_of_string s) = s"
proof -
  have "\<And>c. char_of (unat (word_of_nat (of_char c) :: byte)) = c"
  proof -
    fix c :: char
    have "(of_char c :: nat) < 256" by simp
    then have "unat (word_of_nat (of_char c) :: byte) = of_char c"
      by (simp add: unat_of_nat)
    then show "char_of (unat (word_of_nat (of_char c) :: byte)) = c" by simp
  qed
  then show ?thesis
    by (simp add: string_of_bytes_def bytes_of_string_def map_idI)
qed

lemma field_take_drop:
  assumes "0 \<le> off" "0 \<le> n" "off + n \<le> int (length buffer)"
  shows "field buffer off n = Some (take (nat n) (drop (nat off) buffer), off + n)"
  using assms by (simp add: field_def slice_def)

lemma field_append:
  "field (pre @ b @ post) (int (length pre)) (int (length b)) = Some (b, int (length pre) + int (length b))"
  by (simp add: field_def slice_def)

lemma ToBytes_encoding: "ToBytes otp = Inr (encoding otp)"
  by (simp add: ToBytes_def write_all_append encoding_def Let_def getIntCounter_def add.assoc)

lemma length_bytes_of_string [simp]: "length (bytes_of_string s) = length s"
  by (simp add: bytes_of_string_def)

lemma length_encoding:
  "length (encoding otp) = 52 + length (key otp) + length (issuer otp) + length (account otp)"
  by (simp add: encoding_def)

lemma time_Unix_roundtrip: "time_Unix (time_of_Unix w) = w"
  by (simp add: time_Unix_def time_of_Unix_def)

lemma reader_Read_length:
  assumes "4 \<le> length data"
  shows "reader_Read (bytes_NewReader data) (replicate 4 0) =
           (take 4 data, 4, None, \<lparr>reader_s = data, reader_i = 4\<rparr>)"
  using assms by (auto simp: reader_Read_def bytes_NewReader_def Let_def min_def)

lemma reader_Read_rest:
  assumes "4 \<le> length data"  "n = length data - 4" "0 < n"
  shows "reader_Read \<lparr>reader_s = data, reader_i = 4\<rparr> (replicate n 0) =
           (drop 4 data, n, None, \<lparr>reader_s = data, reader_i = 4 + n\<rparr>)"
  using assms by (auto simp: reader_Read_def Let_def)

lemma TOTPFromBytes_encoding:
  assumes "populated otp"
  shows "TOTPFromBytes (encoding otp) =
     Some (otp\<lparr>lastVerificationTime := time_of_Unix (time_Unix (lastVerificationTime otp))\<rparr>, None)"
proof -
  define K where "K = key otp"
  define I where "I = bytes_of_string (issuer otp)"
  define A where "A = bytes_of_string (account otp)"
  define total where "total = 52 + length (key otp) + length (issuer otp) + length (account otp)"
  define h :: go_int where "h = (if hashFunction otp = crypto_SHA256 then 1
                   else if hashFunction otp = crypto_SHA512 then 2 else 0)"
  define buffer where "buffer = bigEndianInt (word_of_nat (length K)) @ K @ counter otp @
     bigEndianInt (digits otp) @
     bigEndianInt (word_of_nat (length I)) @ I @
     bigEndianInt (word_of_nat (length A)) @ A @
     bigEndianInt (stepSize otp) @ bigEndianInt (clientOffset otp) @
     bigEndianInt (totalVerificationFailures otp) @
     bigEndianUint64 (time_Unix (lastVerificationTime otp)) @
     bigEndianInt h"
  have p: "length (counter otp) = 8" "total < 2 ^ 31"
      "int32_range (digits otp)" "int32_range (stepSize otp)"
      "int32_range (clientOffset otp)" "int32_range (totalVerificationFailures otp)"
      "hashFunction otp \<in> {crypto_SHA1, crypto_SHA256, crypto_SHA512}"
    using assms by (simp_all add: populated_def total_def COUNTER_SIZE_def)
  have lens: "length K < 2 ^ 31" "length I < 2 ^ 31" "length A < 2 ^ 31"
    using p(2) by (simp_all add: total_def K_def I_def A_def)
  have enc: "encoding otp = bigEndianInt (word_of_nat total) @ buffer"
    using p(1) by (simp add: encoding_def buffer_def K_def I_def A_def total_def h_def counter_roundtrip)
  have lb: "length buffer = total - 4" "4 \<le> total"
    by (simp_all add: buffer_def total_def K_def I_def A_def p(1))
  have rd1: "reader_Read (bytes_NewReader (encoding otp)) (replicate 4 0) =
      (bigEndianInt (word_of_nat total), 4, None, \<lparr>reader_s = encoding otp, reader_i = 4\<rparr>)"
    using reader_Read_length [of "encoding otp"] by (simp add: enc)
  have tot: "int4 (bigEndianInt (word_of_nat total)) = Some (word_of_nat total)"
     "sint (word_of_nat total :: go_int) = int total"
    using int32_range_of_nat [OF p(2)] by (simp_all add: int4_bigEndianInt)
  have mk: "make_bytes (int total - 4) = Some (replicate (total - 4) 0)"
    using lb(2) by (simp add: make_bytes_def nat_diff_distrib)
  have rd2: "reader_Read \<lparr>reader_s = encoding otp, reader_i = 4\<rparr> (replicate (total - 4) 0) =
      (buffer, total - 4, None, \<lparr>reader_s = encoding otp, reader_i = 4 + (total - 4)\<rparr>)"
    using reader_Read_rest [of "encoding otp" "total - 4"] lb by (simp add: enc total_def)
  define o1 :: int where "o1 = 4"
  define o2 :: int where "o2 = 4 + int (length K)"
  define o3 :: int where "o3 = 4 + int (length K) + 8"
  define o4 :: int where "o4 = 4 + int (length K) + 8 + 4"
  define o5 :: int where "o5 = 4 + int (length K) + 8 + 4 + 4"
  define o6 :: int where "o6 = 4 + int (length K) + 8 + 4 + 4 + int (length I)"
  define o7 :: int where "o7 = 4 + int (length K) + 8 + 4 + 4 + int (length I) + 4"
  define o8 :: int where "o8 = 4 + int (length K) + 8 + 4 + 4 + int (length I) + 4 + int (length A)"
  define o9 :: int where "o9 = 4 + int (length K) + 8 + 4 + 4 + int (length I) + 4 + int (length A) + 4"
  define o10 :: int where "o10 = 4 + int (length K) + 8 + 4 + 4 + int (length I) + 4 + int (length A) + 4 + 4"
  define o11 :: int where "o11 = 4 + int (length K) + 8 + 4 + 4 + int (length I) + 4 + int (length A) + 4 + 4 + 4"
  define o12 :: int where "o12 = 4 + int (length K) + 8 + 4 + 4 + int (length I) + 4 + int (length A) + 4 + 4 + 4 + 8"
  define o13 :: int where "o13 = 4 + int (length K) + 8 + 4 + 4 + int (length I) + 4 + int (length A) + 4 + 4 + 4 + 8 + 4"
  have sz: "sint (word_of_nat (length K) :: go_int) = int (length K)"
      "sint (word_of_nat (length I) :: go_int) = int (length I)"
      "sint (word_of_nat (length A) :: go_int) = int (length A)"
    using lens by (simp_all add: int32_range_of_nat)
  have f1: "field buffer 0 (4) = Some (bigEndianInt (word_of_nat (length K)), o1)"
  proof -
    have "buffer = ([]) @ (bigEndianInt (word_of_nat (length K))) @ (K @ counter otp @ bigEndianInt (digits otp) @ bigEndianInt (word_of_nat (length I)) @ I @ bigEndianInt (word_of_nat (length A)) @ A @ bigEndianInt (stepSize otp) @ bigEndianInt (clientOffset otp) @ bigEndianInt (totalVerificationFailures otp) @ bigEndianUint64 (time_Unix (lastVerificationTime otp)) @ bigEndianInt h)" by (simp add: buffer_def)
    then show ?thesis
      using field_append [of "[]" "bigEndianInt (word_of_nat (length K))" "K @ counter otp @ bigEndianInt (digits otp) @ bigEndianInt (word_of_nat (length I)) @ I @ bigEndianInt (word_of_nat (length A)) @ A @ bigEndianInt (stepSize otp) @ bigEndianInt (clientOffset otp) @ bigEndianInt (totalVerificationFailures otp) @ bigEndianUint64 (time_Unix (lastVerificationTime otp)) @ bigEndianInt h"] by (simp add: o1_def sz p(1) ac_simps)
  qed
  have f2: "field buffer o1 (sint (word_of_nat (length K) :: go_int)) = Some (K, o2)"
  proof -
    have "buffer = (bigEndianInt (word_of_nat (length K))) @ (K) @ (counter otp @ bigEndianInt (digits otp) @ bigEndianInt (word_of_nat (length I)) @ I @ bigEndianInt (word_of_nat (length A)) @ A @ bigEndianInt (stepSize otp) @ bigEndianInt (clientOffset otp) @ bigEndianInt (totalVerificationFailures otp) @ bigEndianUint64 (time_Unix (lastVerificationTime otp)) @ bigEndianInt h)" by (simp add: buffer_def)
    then show ?thesis
      using field_append [of "bigEndianInt (word_of_nat (length K))" "K" "counter otp @ bigEndianInt (digits otp) @ bigEndianInt (word_of_nat (length I)) @ I @ bigEndianInt (word_of_nat (length A)) @ A @ bigEndianInt (stepSize otp) @ bigEndianInt (clientOffset otp) @ bigEndianInt (totalVerificationFailures otp) @ bigEndianUint64 (time_Unix (lastVerificationTime otp)) @ bigEndianInt h"] by (simp add: o1_def o2_def sz p(1) ac_simps)
  qed
  have f3: "field buffer o2 (8) = Some (counter otp, o3)"
  proof -
    have "buffer = (bigEndianInt (word_of_nat (length K)) @ K) @ (counter otp) @ (bigEndianInt (digits otp) @ bigEndianInt (word_of_nat (length I)) @ I @ bigEndianInt (word_of_nat (length A)) @ A @ bigEndianInt (stepSize otp) @ bigEndianInt (clientOffset otp) @ bigEndianInt (totalVerificationFailures otp) @ bigEndianUint64 (time_Unix (lastVerificationTime otp)) @ bigEndianInt h)" by (simp add: buffer_def)
    then show ?thesis
      using field_append [of "bigEndianInt (word_of_nat (length K)) @ K" "counter otp" "bigEndianInt (digits otp) @ bigEndianInt (word_of_nat (length I)) @ I @ bigEndianInt (word_of_nat (length A)) @ A @ bigEndianInt (stepSize otp) @ bigEndianInt (clientOffset otp) @ bigEndianInt (totalVerificationFailures otp) @ bigEndianUint64 (time_Unix (lastVerificationTime otp)) @ bigEndianInt h"] by (simp add: o2_def o3_def sz p(1) ac_simps)
  qed
  have f4: "field buffer o3 (4) = Some (bigEndianInt (digits otp), o4)"
  proof -
    have "buffer = (bigEndianInt (word_of_nat (length K)) @ K @ counter otp) @ (bigEndianInt (digits otp)) @ (bigEndianInt (word_of_nat (length I)) @ I @ bigEndianInt (word_of_nat (length A)) @ A @ bigEndianInt (stepSize otp) @ bigEndianInt (clientOffset otp) @ bigEndianInt (totalVerificationFailures otp) @ bigEndianUint64 (time_Unix (lastVerificationTime otp)) @ bigEndianInt h)" by (simp add: buffer_def)
    then show ?thesis
      using field_append [of "bigEndianInt (word_of_nat (length K)) @ K @ counter otp" "bigEndianInt (digits otp)" "bigEndianInt (word_of_nat (length I)) @ I @ bigEndianInt (word_of_nat (length A)) @ A @ bigEndianInt (stepSize otp) @ bigEndianInt (clientOffset otp) @ bigEndianInt (totalVerificationFailures otp) @ bigEndianUint64 (time_Unix (lastVerificationTime otp)) @ bigEndianInt h"] by (simp add: o3_def o4_def sz p(1) ac_simps)
  qed
  have f5: "field buffer o4 (4) = Some (bigEndianInt (word_of_nat (length I)), o5)"
  proof -
    have "buffer = (bigEndianInt (word_of_nat (length K)) @ K @ counter otp @ bigEndianInt (digits otp)) @ (bigEndianInt (word_of_nat (length I))) @ (I @ bigEndianInt (word_of_nat (length A)) @ A @ bigEndianInt (stepSize otp) @ bigEndianInt (clientOffset otp) @ bigEndianInt (totalVerificationFailures otp) @ bigEndianUint64 (time_Unix (lastVerificationTime otp)) @ bigEndianInt h)" by (simp add: buffer_def)
    then show ?thesis
      using field_append [of "bigEndianInt (word_of_nat (length K)) @ K @ counter otp @ bigEndianInt (digits otp)" "bigEndianInt (word_of_nat (length I))" "I @ bigEndianInt (word_of_nat (length A)) @ A @ bigEndianInt (stepSize otp) @ bigEndianInt (clientOffset otp) @ bigEndianInt (totalVerificationFailures otp) @ bigEndianUint64 (time_Unix (lastVerificationTime otp)) @ bigEndianInt h"] by (simp add: o4_def o5_def sz p(1) ac_simps)
  qed
  have f6: "field buffer o5 (sint (word_of_nat (length I) :: go_int)) = Some (I, o6)"
  proof -
    have "buffer = (bigEndianInt (word_of_nat (length K)) @ K @ counter otp @ bigEndianInt (digits otp) @ bigEndianInt (word_of_nat (length I))) @ (I) @ (bigEndianInt (word_of_nat (length A)) @ A @ bigEndianInt (stepSize otp) @ bigEndianInt (clientOffset otp) @ bigEndianInt (totalVerificationFailures otp) @ bigEndianUint64 (time_Unix (lastVerificationTime otp)) @ bigEndianInt h)" by (simp add: buffer_def)
    then show ?thesis
      using field_append [of "bigEndianInt (word_of_nat (length K)) @ K @ counter otp @ bigEndianInt (digits otp) @ bigEndianInt (word_of_nat (length I))" "I" "bigEndianInt (word_of_nat (length A)) @ A @ bigEndianInt (stepSize otp) @ bigEndianInt (clientOffset otp) @ bigEndianInt (totalVerificationFailures otp) @ bigEndianUint64 (time_Unix (lastVerificationTime otp)) @ bigEndianInt h"] by (simp add: o5_def o6_def sz p(1) ac_simps)
  qed
  have f7: "field buffer o6 (4) = Some (bigEndianInt (word_of_nat (length A)), o7)"
  proof -
    have "buffer = (bigEndianInt (word_of_nat (length K)) @ K @ counter otp @ bigEndianInt (digits otp) @ bigEndianInt (word_of_nat (length I)) @ I) @ (bigEndianInt (word_of_nat (length A))) @ (A @ bigEndianInt (stepSize otp) @ bigEndianInt (clientOffset otp) @ bigEndianInt (totalVerificationFailures otp) @ bigEndianUint64 (time_Unix (lastVerificationTime otp)) @ bigEndianInt h)" by (simp add: buffer_def)
    then show ?thesis
      using field_append [of "bigEndianInt (word_of_nat (length K)) @ K @ counter otp @ bigEndianInt (digits otp) @ bigEndianInt (word_of_nat (length I)) @ I" "bigEndianInt (word_of_nat (length A))" "A @ bigEndianInt (stepSize otp) @ bigEndianInt (clientOffset otp) @ bigEndianInt (totalVerificationFailures otp) @ bigEndianUint64 (time_Unix (lastVerificationTime otp)) @ bigEndianInt h"] by (simp add: o6_def o7_def sz p(1) ac_simps)
  qed
  have f8: "field buffer o7 (sint (word_of_nat (length A) :: go_int)) = Some (A, o8)"
  proof -
    have "buffer = (bigEndianInt (word_of_nat (length K)) @ K @ counter otp @ bigEndianInt (digits otp) @ bigEndianInt (word_of_nat (length I)) @ I @ bigEndianInt (word_of_nat (length A))) @ (A) @ (bigEndianInt (stepSize otp) @ bigEndianInt (clientOffset otp) @ bigEndianInt (totalVerificationFailures otp) @ bigEndianUint64 (time_Unix (lastVerificationTime otp)) @ bigEndianInt h)" by (simp add: buffer_def)
    then show ?thesis
      using field_append [of "bigEndianInt (word_of_nat (length K)) @ K @ counter otp @ bigEndianInt (digits otp) @ bigEndianInt (word_of_nat (length I)) @ I @ bigEndianInt (word_of_nat (length A))" "A" "bigEndianInt (stepSize otp) @ bigEndianInt (clientOffset otp) @ bigEndianInt (totalVerificationFailures otp) @ bigEndianUint64 (time_Unix (lastVerificationTime otp)) @ bigEndianInt h"] by (simp add: o7_def o8_def sz p(1) ac_simps)
  qed
  have f9: "field buffer o8 (4) = Some (bigEndianInt (stepSize otp), o9)"
  proof -
    have "buffer = (bigEndianInt (word_of_nat (length K)) @ K @ counter otp @ bigEndianInt (digits otp) @ bigEndianInt (word_of_nat (length I)) @ I @ bigEndianInt (word_of_nat (length A)) @ A) @ (bigEndianInt (stepSize otp)) @ (bigEndianInt (clientOffset otp) @ bigEndianInt (totalVerificationFailures otp) @ bigEndianUint64 (time_Unix (lastVerificationTime otp)) @ bigEndianInt h)" by (simp add: buffer_def)
    then show ?thesis
      using field_append [of "bigEndianInt (word_of_nat (length K)) @ K @ counter otp @ bigEndianInt (digits otp) @ bigEndianInt (word_of_nat (length I)) @ I @ bigEndianInt (word_of_nat (length A)) @ A" "bigEndianInt (stepSize otp)" "bigEndianInt (clientOffset otp) @ bigEndianInt (totalVerificationFailures otp) @ bigEndianUint64 (time_Unix (lastVerificationTime otp)) @ bigEndianInt h"] by (simp add: o8_def o9_def sz p(1) ac_simps)
  qed
  have f10: "field buffer o9 (4) = Some (bigEndianInt (clientOffset otp), o10)"
  proof -
    have "buffer = (bigEndianInt (word_of_nat (length K)) @ K @ counter otp @ bigEndianInt (digits otp) @ bigEndianInt (word_of_nat (length I)) @ I @ bigEndianInt (word_of_nat (length A)) @ A @ bigEndianInt (stepSize otp)) @ (bigEndianInt (clientOffset otp)) @ (bigEndianInt (totalVerificationFailures otp) @ bigEndianUint64 (time_Unix (lastVerificationTime otp)) @ bigEndianInt h)" by (simp add: buffer_def)
    then show ?thesis
      using field_append [of "bigEndianInt (word_of_nat (length K)) @ K @ counter otp @ bigEndianInt (digits otp) @ bigEndianInt (word_of_nat (length I)) @ I @ bigEndianInt (word_of_nat (length A)) @ A @ bigEndianInt (stepSize otp)" "bigEndianInt (clientOffset otp)" "bigEndianInt (totalVerificationFailures otp) @ bigEndianUint64 (time_Unix (lastVerificationTime otp)) @ bigEndianInt h"] by (simp add: o9_def o10_def sz p(1) ac_simps)
  qed
  have f11: "field buffer o10 (4) = Some (bigEndianInt (totalVerificationFailures otp), o11)"
  proof -
    have "buffer = (bigEndianInt (word_of_nat (length K)) @ K @ counter otp @ bigEndianInt (digits otp) @ bigEndianInt (word_of_nat (length I)) @ I @ bigEndianInt (word_of_nat (length A)) @ A @ bigEndianInt (stepSize otp) @ bigEndianInt (clientOffset otp)) @ (bigEndianInt (totalVerificationFailures otp)) @ (bigEndianUint64 (time_Unix (lastVerificationTime otp)) @ bigEndianInt h)" by (simp add: buffer_def)
    then show ?thesis
      using field_append [of "bigEndianInt (word_of_nat (length K)) @ K @ counter otp @ bigEndianInt (digits otp) @ bigEndianInt (word_of_nat (length I)) @ I @ bigEndianInt (word_of_nat (length A)) @ A @ bigEndianInt (stepSize otp) @ bigEndianInt (clientOffset otp)" "bigEndianInt (totalVerificationFailures otp)" "bigEndianUint64 (time_Unix (lastVerificationTime otp)) @ bigEndianInt h"] by (simp add: o10_def o11_def sz p(1) ac_simps)
  qed
  have f12: "field buffer o11 (8) = Some (bigEndianUint64 (time_Unix (lastVerificationTime otp)), o12)"
  proof -
    have "buffer = (bigEndianInt (word_of_nat (length K)) @ K @ counter otp @ bigEndianInt (digits otp) @ bigEndianInt (word_of_nat (length I)) @ I @ bigEndianInt (word_of_nat (length A)) @ A @ bigEndianInt (stepSize otp) @ bigEndianInt (clientOffset otp) @ bigEndianInt (totalVerificationFailures otp)) @ (bigEndianUint64 (time_Unix (lastVerificationTime otp))) @ (bigEndianInt h)" by (simp add: buffer_def)
    then show ?thesis
      using field_append [of "bigEndianInt (word_of_nat (length K)) @ K @ counter otp @ bigEndianInt (digits otp) @ bigEndianInt (word_of_nat (length I)) @ I @ bigEndianInt (word_of_nat (length A)) @ A @ bigEndianInt (stepSize otp) @ bigEndianInt (clientOffset otp) @ bigEndianInt (totalVerificationFailures otp)" "bigEndianUint64 (time_Unix (lastVerificationTime otp))" "bigEndianInt h"] by (simp add: o11_def o12_def sz p(1) ac_simps)
  qed
  have f13: "field buffer o12 (4) = Some (bigEndianInt h, o13)"
  proof -
    have "buffer = (bigEndianInt (word_of_nat (length K)) @ K @ counter otp @ bigEndianInt (digits otp) @ bigEndianInt (word_of_nat (length I)) @ I @ bigEndianInt (word_of_nat (length A)) @ A @ bigEndianInt (stepSize otp) @ bigEndianInt (clientOffset otp) @ bigEndianInt (totalVerificationFailures otp) @ bigEndianUint64 (time_Unix (lastVerificationTime otp))) @ (bigEndianInt h) @ ([])" by (simp add: buffer_def)
    then show ?thesis
      using field_append [of "bigEndianInt (word_of_nat (length K)) @ K @ counter otp @ bigEndianInt (digits otp) @ bigEndianInt (word_of_nat (length I)) @ I @ bigEndianInt (word_of_nat (length A)) @ A @ bigEndianInt (stepSize otp) @ bigEndianInt (clientOffset otp) @ bigEndianInt (totalVerificationFailures otp) @ bigEndianUint64 (time_Unix (lastVerificationTime otp))" "bigEndianInt h" "[]"] by (simp add: o12_def o13_def sz p(1) ac_simps)
  qed

  have i4: "int4 (bigEndianInt (word_of_nat (length K))) = Some (word_of_nat (length K))"
    "int4 (bigEndianInt (digits otp)) = Some (digits otp)"
    "int4 (bigEndianInt (word_of_nat (length I))) = Some (word_of_nat (length I))"
    "int4 (bigEndianInt (word_of_nat (length A))) = Some (word_of_nat (length A))"
    "int4 (bigEndianInt (stepSize otp)) = Some (stepSize otp)"
    "int4 (bigEndianInt (clientOffset otp)) = Some (clientOffset otp)"
    "int4 (bigEndianInt (totalVerificationFailures otp)) = Some (totalVerificationFailures otp)"
    "int4 (bigEndianInt h) = Some h"
    using p lens by (simp_all add: int4_bigEndianInt int32_range_of_nat h_def int32_range_def)
  have a8: "array8 (counter otp) = Some (counter otp)"
    "array8 (bigEndianUint64 (time_Unix (lastVerificationTime otp))) = Some (bigEndianUint64 (time_Unix (lastVerificationTime otp)))"
    using p(1) by (simp_all add: array8_Some)
  have "TOTPFromBytes (encoding otp) = Some
     ((if h = 1 then (new_totp\<lparr>key := K, counter := counter otp, digits := digits otp,
         issuer := string_of_bytes I, account := string_of_bytes A, stepSize := stepSize otp,
         clientOffset := clientOffset otp, totalVerificationFailures := totalVerificationFailures otp,
         lastVerificationTime := time_of_Unix (uint64FromBigEndian (bigEndianUint64 (time_Unix (lastVerificationTime otp))))\<rparr>)\<lparr>hashFunction := crypto_SHA256\<rparr>
       else if h = 2 then (new_totp\<lparr>key := K, counter := counter otp, digits := digits otp,
         issuer := string_of_bytes I, account := string_of_bytes A, stepSize := stepSize otp,
         clientOffset := clientOffset otp, totalVerificationFailures := totalVerificationFailures otp,
         lastVerificationTime := time_of_Unix (uint64FromBigEndian (bigEndianUint64 (time_Unix (lastVerificationTime otp))))\<rparr>)\<lparr>hashFunction := crypto_SHA512\<rparr>
       else (new_totp\<lparr>key := K, counter := counter otp, digits := digits otp,
         issuer := string_of_bytes I, account := string_of_bytes A, stepSize := stepSize otp,
         clientOffset := clientOffset otp, totalVerificationFailures := totalVerificationFailures otp,
         lastVerificationTime := time_of_Unix (uint64FromBigEndian (bigEndianUint64 (time_Unix (lastVerificationTime otp))))\<rparr>)\<lparr>hashFunction := crypto_SHA1\<rparr>), None)"
    unfolding TOTPFromBytes_def read_fields_def
    by (simp only: rd1 tot mk rd2 f1 f2 f3 f4 f5 f6 f7 f8 f9 f10 f11 f12 f13 i4 a8
          Let_def prod.case bind.bind_lunit simp_thms if_False if_True option.simps)
  moreover have "h = 1 \<longleftrightarrow> hashFunction otp = crypto_SHA256" "h = 2 \<longleftrightarrow> hashFunction otp = crypto_SHA512"
    by (simp_all add: h_def crypto_SHA256_def crypto_SHA512_def)
  ultimately show ?thesis
    using p(7)
    by (auto simp: K_def I_def A_def string_roundtrip uint64_roundtrip new_totp_def
          crypto_SHA1_def crypto_SHA256_def crypto_SHA512_def)
qed

lemma ToBytes_sample: "ToBytes sample_totp = Inr sample_bytes"
  unfolding sample_bytes_def by code_simp

lemma ToBytes_resynced: "ToBytes resynced_totp = Inr resynced_bytes"
  unfolding resynced_bytes_def by code_simp

text \<open>
  C9, as the claim states it, fails on the constant: the fixed part of the layout is 52
  bytes, not 44. The credential of the instance, with 3 + 5 + 14 bytes of key, issuer and
  account, is encoded in 74 bytes, and 74 is what the first four bytes say.
\<close>

theorem ToBytes_total_size_counterexample:
  "ToBytes sample_totp = Inr sample_bytes \<and> length sample_bytes = 74 \<and>
   44 + length (key sample_totp) + length (issuer sample_totp) + length (account sample_totp) = 66"
  by (simp add: ToBytes_sample) (simp add: sample_bytes_def sample_totp_def)

text \<open>
  C9, amended. For every credential \<^verbatim>\<open>ToBytes\<close> returns bytes, never an error; their
  number is \<open>52 + keySize + issuerSize + accountSize\<close>, and it is the \<^verbatim>\<open>totalSize\<close>
  that the first four bytes hold (as long as it fits them, below \<open>2 ^ 31\<close>).
\<close>

theorem ToBytes_total_size:
  "\<exists>b. ToBytes otp = Inr b \<and>
       length b = 52 + length (key otp) + length (issuer otp) + length (account otp) \<and>
       (length b < 2 ^ 31 \<longrightarrow> sint (intFromBigEndian (take 4 b)) = int (length b))"
proof (intro exI conjI impI)
  show "ToBytes otp = Inr (encoding otp)" by (rule ToBytes_encoding)
  show "length (encoding otp) = 52 + length (key otp) + length (issuer otp) + length (account otp)"
    by (rule length_encoding)
  assume "length (encoding otp) < 2 ^ 31"
  then have r: "52 + length (key otp) + length (issuer otp) + length (account otp) < 2 ^ 31"
    by (simp add: length_encoding)
  have "take 4 (encoding otp) =
      bigEndianInt (word_of_nat (52 + length (key otp) + length (issuer otp) + length (account otp)))"
    by (simp add: encoding_def)
  then show "sint (intFromBigEndian (take 4 (encoding otp))) = int (length (encoding otp))"
    using int32_range_of_nat [OF r]
    by (simp add: int_roundtrip int32_range_def length_encoding)
qed

theorem ToBytes_total_size_witness:
  "ToBytes sample_totp = Inr sample_bytes \<and> length sample_bytes = 74 \<and>
   sint (intFromBigEndian (take 4 sample_bytes)) = 74"
proof -
  have l: "length sample_bytes = 74" by (simp add: sample_bytes_def)
  from ToBytes_total_size [of sample_totp] show ?thesis
    by (simp add: ToBytes_sample l)
qed

lemma encoding_cong:
  assumes "key a = key b" "counter a = counter b" "digits a = digits b" "issuer a = issuer b"
    "account a = account b" "stepSize a = stepSize b" "clientOffset a = clientOffset b"
    "totalVerificationFailures a = totalVerificationFailures b"
    "time_Unix (lastVerificationTime a) = time_Unix (lastVerificationTime b)"
    "hashFunction a = hashFunction b"
  shows "encoding a = encoding b"
  using assms by (simp add: encoding_def)

text \<open>
  C3. For every populated credential, decoding its encoding succeeds with a \<^verbatim>\<open>nil\<close>
  error and gives back the key, the counter, the digits, the step size, the client
  offset, the failures, the issuer, the account, the hash and the verification time to
  the second; encoding the decoded credential gives the same bytes again.
\<close>

theorem TOTPFromBytes_ToBytes:
  assumes "populated otp"
  shows "\<exists>b otp'. ToBytes otp = Inr b \<and> TOTPFromBytes b = Some (otp', None) \<and>
     key otp' = key otp \<and> counter otp' = counter otp \<and> digits otp' = digits otp \<and>
     stepSize otp' = stepSize otp \<and> clientOffset otp' = clientOffset otp \<and>
     totalVerificationFailures otp' = totalVerificationFailures otp \<and>
     time_Unix (lastVerificationTime otp') = time_Unix (lastVerificationTime otp) \<and>
     issuer otp' = issuer otp \<and> account otp' = account otp \<and>
     hashFunction otp' = hashFunction otp \<and>
     ToBytes otp' = Inr b"
proof -
  let ?otp' = "otp\<lparr>lastVerificationTime := time_of_Unix (time_Unix (lastVerificationTime otp))\<rparr>"
  have d: "TOTPFromBytes (encoding otp) = Some (?otp', None)"
    using assms by (rule TOTPFromBytes_encoding)
  have "encoding ?otp' = encoding otp"
    by (rule encoding_cong) (simp_all add: time_Unix_roundtrip)
  then have "ToBytes ?otp' = Inr (encoding otp)" by (simp add: ToBytes_encoding)
  then show ?thesis
    using d by (simp add: ToBytes_encoding time_Unix_roundtrip)
qed

theorem TOTPFromBytes_ToBytes_witness:
  "ToBytes resynced_totp = Inr resynced_bytes \<and>
   map_option snd (TOTPFromBytes resynced_bytes) = Some None \<and>
   map_option (clientOffset \<circ> fst) (TOTPFromBytes resynced_bytes) = Some (- 1) \<and>
   map_option (time_Unix \<circ> lastVerificationTime \<circ> fst) (TOTPFromBytes resynced_bytes) = Some 1438601387 \<and>
   map_option (ToBytes \<circ> fst) (TOTPFromBytes resynced_bytes) = Some (Inr resynced_bytes)"
proof -
  have "populated resynced_totp"
    by (simp add: populated_def resynced_totp_def sample_totp_def COUNTER_SIZE_def int32_range_def
          crypto_SHA512_def)
  from TOTPFromBytes_ToBytes [OF this] show ?thesis
    by (auto simp: ToBytes_resynced) (simp_all add: resynced_totp_def sample_totp_def time_Unix_def)
qed

lemma field_bind:
  "Option.bind (field buffer off n) (case_prod F) =
     (if 0 \<le> off \<and> 0 \<le> n \<and> off + n \<le> int (length buffer)
      then F (take (nat n) (drop (nat off) buffer)) (off + n) else None)"
  by (auto simp: field_def slice_def)

lemma field_bind_int4:
  "Option.bind (field buffer off 4) (case_prod (\<lambda>b e. Option.bind (int4 b) (\<lambda>v. F v e))) =
     (if 0 \<le> off \<and> off + 4 \<le> int (length buffer)
      then F (intFromBigEndian (take 4 (drop (nat off) buffer))) (off + 4) else None)"
proof (cases "0 \<le> off \<and> off + 4 \<le> int (length buffer)")
  case True
  then have "length (take 4 (drop (nat off) buffer)) = 4" by auto
  then have "int4 (take 4 (drop (nat off) buffer)) = Some (intFromBigEndian (take 4 (drop (nat off) buffer)))"
    by (simp add: int4_def array4_Some)
  with True show ?thesis by (simp add: field_bind)
next
  case False
  then show ?thesis by (auto simp: field_bind)
qed

lemma field_bind_array8:
  "Option.bind (field buffer off 8) (case_prod (\<lambda>b e. Option.bind (array8 b) (\<lambda>v. F v e))) =
     (if 0 \<le> off \<and> off + 8 \<le> int (length buffer)
      then F (take 8 (drop (nat off) buffer)) (off + 8) else None)"
proof (cases "0 \<le> off \<and> off + 8 \<le> int (length buffer)")
  case True
  then have "length (take 8 (drop (nat off) buffer)) = 8" by auto
  then have "array8 (take 8 (drop (nat off) buffer)) = Some (take 8 (drop (nat off) buffer))"
    by (rule array8_Some)
  with True show ?thesis by (simp add: field_bind)
next
  case False
  then show ?thesis by (auto simp: field_bind)
qed

lemma if_None_eq: "((if c then X else None) = None) = (c \<longrightarrow> X = None)"
  by simp

lemma if_Some_eq: "((if c then X else None) = Some y) = (c \<and> X = Some y)"
  by simp

lemma Some_eq_None: "(Some x = None) = False"
  by simp

lemma read_fields_None: "(read_fields otp buffer err = None) = (\<not> fields_fit buffer)"
proof -
  define n where "n = int (length buffer)"
  define ks where "ks = declared_at buffer 0"
  define isz where "isz = declared_at buffer (ks + 16)"
  define asz where "asz = declared_at buffer (ks + isz + 20)"
  have k: "sint (intFromBigEndian (take 4 (drop (nat 0) buffer))) = ks"
    by (simp only: ks_def declared_at_def)
  have e1: "0 + 4 + ks + 8 + 4 = ks + 16" by simp
  have i: "sint (intFromBigEndian (take 4 (drop (nat (ks + 16)) buffer))) = isz"
    by (simp only: isz_def declared_at_def)
  have e2: "ks + 16 + 4 + isz = ks + isz + 20" by simp
  have a: "sint (intFromBigEndian (take 4 (drop (nat (ks + isz + 20)) buffer))) = asz"
    by (simp only: asz_def declared_at_def)
  have fit: "fields_fit buffer =
      (4 \<le> n \<and> 0 \<le> ks \<and> ks + 20 \<le> n \<and> 0 \<le> isz \<and> ks + isz + 24 \<le> n \<and>
       0 \<le> asz \<and> ks + isz + asz + 48 \<le> n)"
    by (simp only: fields_fit_def Let_def n_def ks_def isz_def asz_def)
  show ?thesis
    unfolding read_fields_def Let_def
    unfolding field_bind_int4 field_bind_array8
    unfolding field_bind
    unfolding if_None_eq fit
    unfolding k e1 i e2 a n_def [symmetric] Some_eq_None
    by presburger
qed

lemma read_fields_err:
  assumes "read_fields otp buffer err = Some (otp', e)"
  shows "e = err"
  using assms
  unfolding read_fields_def Let_def
  unfolding field_bind_int4 field_bind_array8
  unfolding field_bind
  unfolding if_Some_eq option.inject prod.inject
  by (elim conjE) (rule sym)

lemma reader_Read_first:
  "reader_Read (bytes_NewReader data) (replicate 4 0) =
     (take 4 (data @ replicate 4 0), min 4 (length data),
      (if data = [] then Some EOF else None),
      \<lparr>reader_s = data, reader_i = min 4 (length data)\<rparr>)"
  by (auto simp: reader_Read_def bytes_NewReader_def Let_def min_def)

lemma reader_Read_second:
  "reader_Read \<lparr>reader_s = data, reader_i = min 4 (length data)\<rparr> (replicate m 0) =
     (take m (drop 4 data @ replicate m 0),
      (if length data \<le> 4 then 0 else min m (length data - 4)),
      (if length data \<le> 4 then Some EOF else None),
      \<lparr>reader_s = data,
         reader_i = (if length data \<le> 4 then min 4 (length data) else 4 + min m (length data - 4))\<rparr>)"
  by (auto simp: reader_Read_def Let_def min_def)

lemma TOTPFromBytes_stages:
  "TOTPFromBytes data =
     (if declared_total data < 4 then None
      else read_fields new_totp (working_buffer data)
             (if length data \<le> 4 then Some EOF else None))"
proof -
  have l: "length (take 4 (data @ replicate 4 (0 :: byte))) = 4" by simp
  have i: "int4 (take 4 (data @ replicate 4 0)) = Some (intFromBigEndian (take 4 (data @ replicate 4 0)))"
    using l by (simp add: int4_def array4_Some)
  show ?thesis
    unfolding TOTPFromBytes_def Let_def reader_Read_first prod.case i bind.bind_lunit
    by (simp add: make_bytes_def reader_Read_second declared_total_def working_buffer_def Let_def)
qed

text \<open>
  C2, amended. \<^verbatim>\<open>TOTPFromBytes\<close> checks no declared size and never returns a decode
  error. It returns a credential, with a \<^verbatim>\<open>nil\<close> error (\<^verbatim>\<open>io.EOF\<close> when the input
  has at most its four length bytes), exactly when the declared total size is at least 4,
  the declared key, issuer and account sizes are not negative and every field lies in the
  working buffer of \<open>totalSize - 4\<close> bytes; bytes that a truncated input lacks are read
  as zeros. For every other input, with a negative declared size or one that exceeds the
  buffer, it panics.
\<close>

theorem TOTPFromBytes_no_validation:
  "(sizes_fit data \<longrightarrow>
      (\<exists>otp. TOTPFromBytes data = Some (otp, if length data \<le> 4 then Some EOF else None))) \<and>
   (\<not> sizes_fit data \<longrightarrow> TOTPFromBytes data = None)"
proof (intro conjI impI)
  assume f: "sizes_fit data"
  then have "read_fields new_totp (working_buffer data) (if length data \<le> 4 then Some EOF else None) \<noteq> None"
    by (simp add: read_fields_None sizes_fit_def)
  then obtain otp e where r: "read_fields new_totp (working_buffer data)
      (if length data \<le> 4 then Some EOF else None) = Some (otp, e)"
    by auto
  from read_fields_err [OF r] r f
  show "\<exists>otp. TOTPFromBytes data = Some (otp, if length data \<le> 4 then Some EOF else None)"
    by (simp add: TOTPFromBytes_stages sizes_fit_def)
next
  assume "\<not> sizes_fit data"
  then show "TOTPFromBytes data = None"
    by (auto simp: TOTPFromBytes_stages sizes_fit_def read_fields_None)
qed

text \<open>
  C2, as the claim states it, fails: the empty input makes \<^verbatim>\<open>make\<close> panic on the
  length \<open>-4\<close>; a declared total of 8 leaves a buffer too short for the counter, and a
  declared key size of \<open>-1\<close> gives slice bounds out of range: both panic. An input cut
  after its fifth byte is accepted with a \<^verbatim>\<open>nil\<close> error.
\<close>

theorem TOTPFromBytes_truncated_counterexample:
  "TOTPFromBytes [] = None \<and> TOTPFromBytes [0, 0, 0, 8, 0, 0, 0, 0] = None \<and>
   TOTPFromBytes [0, 0, 0, 8, 255, 255, 255, 255] = None \<and>
   map_option snd (TOTPFromBytes [0, 0, 0, 52, 0]) = Some None"
  by code_simp

lemma zeros_fit: "sizes_fit [0, 0, 0, 52]"
  by code_simp

theorem TOTPFromBytes_no_validation_witness:
  "map_option snd (TOTPFromBytes [0, 0, 0, 52]) = Some (Some EOF) \<and>
   TOTPFromBytes [0, 0, 0, 8, 0, 0, 0, 0] = None"
proof -
  have n: "\<not> sizes_fit [0, 0, 0, 8, 0, 0, 0, 0]" by code_simp
  from TOTPFromBytes_no_validation [of "[0, 0, 0, 52]"]
    TOTPFromBytes_no_validation [of "[0, 0, 0, 8, 0, 0, 0, 0]"]
  show ?thesis using zeros_fit n by auto
qed

end
